theory Spec2Isabelle
  imports Main "HOL-Library.Sublist" "HOL-Library.Multiset"
begin

section \<open>The filesystem seen by the program\<close>

text \<open>
  The program (\<^verbatim>\<open>src/index.js\<close>) reads the filesystem through
  \<^verbatim>\<open>fs.promises.stat\<close>, \<^verbatim>\<open>fs.promises.readdir\<close> and
  \<^verbatim>\<open>fs.existsSync\<close>, and changes it through \<^verbatim>\<open>fs.promises.unlink\<close>
  and \<^verbatim>\<open>fs.promises.rm\<close>. The filesystem is modelled as a finite tree. A
  location is the list of the names that lead to it from the root of the tree;
  \<^verbatim>\<open>path.join(dir, file)\<close>, with \<^verbatim>\<open>file\<close> a name that
  \<^verbatim>\<open>readdir\<close> returned, appends one name.

  A node is a regular file with its size in bytes, a directory with its named entries, a
  directory that can be statted but not enumerated (\<open>NoRead\<close>), or an entry that is
  listed by its parent but cannot be statted (\<open>NoStat\<close>: a dangling symbolic link, a
  permission error). The entries of a directory are in the order in which
  \<^verbatim>\<open>readdir\<close> returns them. The size of a file is the natural number that the
  filesystem holds; \<^verbatim>\<open>stats.size\<close> is that size as a JavaScript number. The tree is
  static during one scan: there is no concurrent change, and no symbolic link leads back
  into the tree.
\<close>

type_synonym path = "string list"

datatype node = File nat | Dir "(string \<times> node) list" | NoRead | NoStat

datatype error = ENOENT | EACCES | ENOTDIR | EPERM

subsection \<open>JavaScript numbers\<close>

text \<open>
  A size is a JavaScript number, a double. Every natural number up to \<open>2 ^ 53\<close> is a
  double; a larger one is rounded to the nearest number that 53 binary digits and a power
  of two give, a tie going to the even one. \<open>toNumber\<close> is this rounding, and
  \<open>plusNumber\<close> is the addition \<^verbatim>\<open>+\<close> of two numbers that hold natural
  numbers: the exact sum, rounded. The overflow of a double to \<^verbatim>\<open>Infinity\<close>,
  at \<open>2 ^ 1024\<close>, is not modelled: no sum of file sizes reaches it.
\<close>

definition exact_limit :: nat where
  "exact_limit = 2 ^ 53"

lemma exact_limit_pos: "0 < exact_limit"
  by (simp add: exact_limit_def)

text \<open>
  The binary exponent of the last digit that a double keeps of \<open>n\<close>: the least \<open>e\<close>
  with \<open>n div 2 ^ e < 2 ^ 53\<close>.
\<close>

function expo :: "nat \<Rightarrow> nat" where
  "expo n = (if n < exact_limit then 0 else Suc (expo (n div 2)))"
  by pat_completeness auto
termination
  by (relation "measure (\<lambda>n. n)") (use exact_limit_pos in auto)

declare expo.simps [simp del]

definition roundTo :: "nat \<Rightarrow> nat \<Rightarrow> nat" where
  "roundTo u n =
     (let q = n div u; r = n mod u in
      if 2 * r < u \<or> (2 * r = u \<and> even q) then q * u else (q + 1) * u)"

definition toNumber :: "nat \<Rightarrow> nat" where
  "toNumber n = roundTo (2 ^ expo n) n"

definition plusNumber :: "nat \<Rightarrow> nat \<Rightarrow> nat" where
  "plusNumber a b = toNumber (a + b)"

subsection \<open>Reading the tree\<close>

record stats =
  stat_isDirectory :: bool
  stat_size :: nat

fun lookup :: "node \<Rightarrow> path \<Rightarrow> node option" where
  "lookup n [] = Some n"
| "lookup (Dir cs) (c # p) = (case map_of cs c of None \<Rightarrow> None | Some n \<Rightarrow> lookup n p)"
| "lookup n (c # p) = None"

text \<open>
  \<^verbatim>\<open>fs.promises.stat\<close>: the size of a directory's own inode is never read by the
  program, and is 0 here.
\<close>

definition stat :: "node \<Rightarrow> path \<Rightarrow> error + stats" where
  "stat fs p =
     (case lookup fs p of
        None \<Rightarrow> Inl ENOENT
      | Some (File n) \<Rightarrow> Inr \<lparr>stat_isDirectory = False, stat_size = toNumber n\<rparr>
      | Some (Dir cs) \<Rightarrow> Inr \<lparr>stat_isDirectory = True, stat_size = 0\<rparr>
      | Some NoRead \<Rightarrow> Inr \<lparr>stat_isDirectory = True, stat_size = 0\<rparr>
      | Some NoStat \<Rightarrow> Inl EACCES)"

definition readdir :: "node \<Rightarrow> path \<Rightarrow> error + string list" where
  "readdir fs p =
     (case lookup fs p of
        None \<Rightarrow> Inl ENOENT
      | Some (File n) \<Rightarrow> Inl ENOTDIR
      | Some (Dir cs) \<Rightarrow> Inr (map fst cs)
      | Some NoRead \<Rightarrow> Inl EACCES
      | Some NoStat \<Rightarrow> Inl EACCES)"

definition existsSync :: "node \<Rightarrow> path \<Rightarrow> bool" where
  "existsSync fs p = (case stat fs p of Inl err \<Rightarrow> False | Inr stats \<Rightarrow> True)"

text \<open>The depth of a tree bounds the length of every location that resolves in it.\<close>

fun height :: "node \<Rightarrow> nat" where
  "height (Dir cs) = Suc (foldr max (map (\<lambda>kv. height (snd kv)) cs) 0)"
| "height n = 0"

lemma height_child:
  "(c, x) \<in> set cs \<Longrightarrow> height x \<le> foldr max (map (\<lambda>kv. height (snd kv)) cs) 0"
  by (induction cs) auto

lemma lookup_height: "lookup n p = Some m \<Longrightarrow> length p + height m \<le> height n"
proof (induction n p rule: lookup.induct)
  case (2 cs c p)
  then obtain x where x: "map_of cs c = Some x" and l: "lookup x p = Some m"
    by (auto split: option.splits)
  from x have "(c, x) \<in> set cs" by (rule map_of_SomeD)
  then have "height x \<le> foldr max (map (\<lambda>kv. height (snd kv)) cs) 0"
    by (rule height_child)
  moreover from 2 x l have "length p + height m \<le> height x" by simp
  ultimately show ?case by simp
qed auto

lemma readdir_height: "readdir fs p = Inr files \<Longrightarrow> length p < height fs"
proof -
  assume r: "readdir fs p = Inr files"
  then obtain cs where "lookup fs p = Some (Dir cs)"
    by (auto simp: readdir_def split: option.splits node.splits)
  then have "length p + height (Dir cs) \<le> height fs" by (rule lookup_height)
  then show ?thesis by simp
qed

lemma stat_height: "stat fs p = Inr s \<Longrightarrow> length p \<le> height fs"
proof -
  assume "stat fs p = Inr s"
  then obtain m where "lookup fs p = Some m"
    by (auto simp: stat_def split: option.splits)
  then have "length p + height m \<le> height fs" by (rule lookup_height)
  then show ?thesis by simp
qed

section \<open>Size Aggregator: \<^verbatim>\<open>getFileSizeRecursive\<close>\<close>

text \<open>
  \<^verbatim>\<open>getFileSizeRecursive\<close> (lines 28--49). A rejected promise is the value
  \<open>Inl err\<close>. The outer \<^verbatim>\<open>try\<close> turns a failure of \<^verbatim>\<open>stat\<close> or of
  \<^verbatim>\<open>readdir\<close> into the result 0; the inner \<^verbatim>\<open>try\<close> turns a failure of
  the recursive call on one entry into the size 0 of that entry;
  \<^verbatim>\<open>sizes.reduce((acc, size) => acc + size, 0)\<close> is a left fold of the addition
  of numbers.
\<close>

function getFileSizeRecursive :: "node \<Rightarrow> path \<Rightarrow> error + nat" where
  "getFileSizeRecursive fs filePath =
     (case stat fs filePath of
        Inl err \<Rightarrow> Inr 0
      | Inr stats \<Rightarrow>
          if stat_isDirectory stats then
            (case readdir fs filePath of
               Inl err \<Rightarrow> Inr 0
             | Inr files \<Rightarrow>
                 Inr (foldl plusNumber 0
                   (map (\<lambda>file. case getFileSizeRecursive fs (filePath @ [file]) of
                                  Inl err \<Rightarrow> 0
                                | Inr n \<Rightarrow> n) files)))
          else Inr (stat_size stats))"
  by pat_completeness auto
termination
proof (relation "measure (\<lambda>(fs, p). height fs - length p)")
  show "wf (measure (\<lambda>(fs, p). height fs - length p))" by simp
next
  fix fs :: node and filePath :: path and files :: "string list" and x :: string
  assume "readdir fs filePath = Inr files"
  then have "length filePath < height fs" by (rule readdir_height)
  then show "((fs, filePath @ [x]), fs, filePath) \<in> measure (\<lambda>(fs, p). height fs - length p)"
    by simp
qed

declare getFileSizeRecursive.simps [simp del]

section \<open>Threshold Scanner: \<^verbatim>\<open>findLargeFiles\<close>\<close>

text \<open>
  One element of the \<^verbatim>\<open>results\<close> array (lines 69--73 and 83--87): the source's
  field \<^verbatim>\<open>size\<close> is \<open>sizeBytes\<close> here.
\<close>

record entry =
  path :: path
  sizeBytes :: nat
  isDirectory :: bool

text \<open>
  The state of one call of \<^verbatim>\<open>findLargeFiles\<close>: the array \<^verbatim>\<open>results\<close>
  that the closure \<^verbatim>\<open>scanDir\<close> appends to, and a ghost log \<open>visits\<close> that the
  source does not have: each call of \<^verbatim>\<open>scanDir\<close> records the directory it is
  called on together with \<^verbatim>\<open>results.length\<close> at that moment. The log is
  written and never read by the functions below.
\<close>

record scan =
  results :: "entry list"
  visits :: "(path \<times> nat) list"

text \<open>
  \<^verbatim>\<open>results.push(e)\<close>, and the ghost step that logs a call of \<^verbatim>\<open>scanDir\<close>.
\<close>

definition push :: "entry \<Rightarrow> scan \<Rightarrow> scan" where
  "push e s = s\<lparr>results := results s @ [e]\<rparr>"

definition visit :: "path \<Rightarrow> scan \<Rightarrow> scan" where
  "visit dir s = s\<lparr>visits := visits s @ [(dir, length (results s))]\<rparr>"

text \<open>
  \<^verbatim>\<open>scanDir\<close> (lines 56--100) and its \<^verbatim>\<open>for\<close> loop over the entries of
  one directory. The loop returns the state and whether a \<^verbatim>\<open>return results\<close>
  (lines 76 and 90) left the function. The recursive call of line 80 discards what
  \<^verbatim>\<open>scanDir\<close> returns, so the loop of the caller goes on after it. A failure
  inside the inner \<^verbatim>\<open>try\<close> (lines 61--95) skips the entry; a failure of
  \<^verbatim>\<open>readdir\<close> (line 58) skips the directory.
\<close>

function scanDir :: "node \<Rightarrow> nat \<Rightarrow> nat \<Rightarrow> path \<Rightarrow> scan \<Rightarrow> scan"
  and scanLoop :: "node \<Rightarrow> nat \<Rightarrow> nat \<Rightarrow> path \<Rightarrow> string list \<Rightarrow> scan \<Rightarrow> scan \<times> bool"
where
  "scanDir fs listLimit sizeThreshold dir s =
     (case readdir fs dir of
        Inl err \<Rightarrow> visit dir s
      | Inr files \<Rightarrow> fst (scanLoop fs listLimit sizeThreshold dir files (visit dir s)))"
| "scanLoop fs listLimit sizeThreshold dir [] s = (s, False)"
| "scanLoop fs listLimit sizeThreshold dir (file # rest) s =
     (let filePath = dir @ [file] in
      case stat fs filePath of
        Inl err \<Rightarrow> scanLoop fs listLimit sizeThreshold dir rest s
      | Inr stats \<Rightarrow>
          if stat_isDirectory stats then
            (case getFileSizeRecursive fs filePath of
               Inl err \<Rightarrow> scanLoop fs listLimit sizeThreshold dir rest s
             | Inr size' \<Rightarrow>
                 if size' \<ge> sizeThreshold then
                   (let s1 = push \<lparr>path = filePath, sizeBytes = size', isDirectory = True\<rparr> s in
                    if length (results s1) \<ge> listLimit then (s1, True)
                    else scanLoop fs listLimit sizeThreshold dir rest s1)
                 else
                   scanLoop fs listLimit sizeThreshold dir rest
                     (scanDir fs listLimit sizeThreshold filePath s))
          else if stat_size stats \<ge> sizeThreshold then
            (let s1 = push \<lparr>path = filePath, sizeBytes = stat_size stats,
                            isDirectory = False\<rparr> s in
             if length (results s1) \<ge> listLimit then (s1, True)
             else scanLoop fs listLimit sizeThreshold dir rest s1)
          else scanLoop fs listLimit sizeThreshold dir rest s)"
  by pat_completeness auto
termination
  by (relation "measures
    [\<lambda>x. case x of
       Inl (fs, listLimit, sizeThreshold, dir, s) \<Rightarrow> Suc (height fs) - length dir
     | Inr (fs, listLimit, sizeThreshold, dir, files, s) \<Rightarrow> Suc (height fs) - length dir,
     \<lambda>x. case x of Inl a \<Rightarrow> 1 | Inr b \<Rightarrow> 0,
     \<lambda>x. case x of
       Inl a \<Rightarrow> 0
     | Inr (fs, listLimit, sizeThreshold, dir, files, s) \<Rightarrow> length files]")
    (auto dest: stat_height)

declare scanDir.simps [simp del]

text \<open>
  A path string names a location: \<open>locate\<close> splits it at the separators. Repeated and
  trailing separators leave no empty name, as in \<^verbatim>\<open>path.join\<close>. Path strings are
  taken to be absolute and without \<^verbatim>\<open>.\<close> and \<^verbatim>\<open>..\<close> segments.
\<close>

fun locate_from :: "string \<Rightarrow> string \<Rightarrow> path" where
  "locate_from cur [] = (if cur = [] then [] else [cur])"
| "locate_from cur (c # cs) =
     (if c = CHR ''/'' then (if cur = [] then [] else [cur]) @ locate_from [] cs
      else locate_from (cur @ [c]) cs)"

definition locate :: "string \<Rightarrow> path" where
  "locate s = locate_from [] s"

text \<open>
  \<^verbatim>\<open>dir.replace(/^~/, process.env.HOME)\<close> (lines 103 and 121): a leading
  \<^verbatim>\<open>~\<close> is replaced by the home directory \<open>home\<close>, taken to hold no
  \<^verbatim>\<open>$\<close>, which \<^verbatim>\<open>replace\<close> would read as a pattern.
\<close>

definition expandHome :: "string \<Rightarrow> string \<Rightarrow> string" where
  "expandHome home directory =
     (case directory of
        [] \<Rightarrow> []
      | c # rest \<Rightarrow> if c = CHR ''~'' then home @ rest else directory)"

definition GB :: nat where
  "GB = 1024 * 1024 * 1024"

text \<open>
  \<^verbatim>\<open>findLargeFiles\<close> (lines 52--111). \<^verbatim>\<open>scanDir\<close> never rejects, so the
  \<^verbatim>\<open>catch\<close> of line 107 is never entered. \<open>findLargeFiles_scan\<close> is the state
  when \<^verbatim>\<open>scanDir(expandedDir)\<close> has returned; \<open>findLargeFiles\<close> is the array the
  function returns. The source's defaults are \<open>listLimit = 1000\<close> and
  \<open>sizeThreshold = GB\<close>.
\<close>

definition findLargeFiles_scan :: "node \<Rightarrow> string \<Rightarrow> string \<Rightarrow> nat \<Rightarrow> nat \<Rightarrow> scan" where
  "findLargeFiles_scan fs home directory listLimit sizeThreshold =
     (let expandedDir = expandHome home directory in
      scanDir fs listLimit sizeThreshold (locate expandedDir) \<lparr>results = [], visits = []\<rparr>)"

definition findLargeFiles :: "node \<Rightarrow> string \<Rightarrow> string \<Rightarrow> nat \<Rightarrow> nat \<Rightarrow> entry list" where
  "findLargeFiles fs home directory listLimit sizeThreshold =
     results (findLargeFiles_scan fs home directory listLimit sizeThreshold)"

section \<open>Cache Locator: \<^verbatim>\<open>scanCacheFiles\<close>\<close>

definition cacheDirs :: "string list" where
  "cacheDirs =
     [''~/Library/Caches'',
      ''~/Library/Logs'',
      ''~/Library/Application Support/*/Caches'',
      ''/Library/Caches'']"

text \<open>
  The loop over the entries of one cache directory (lines 136--147 and 155--166). Neither
  \<^verbatim>\<open>stat\<close> nor the size computation is inside a \<^verbatim>\<open>try\<close> of its own: a
  failure leaves the loop with the entries pushed so far, and is caught at line 168.
\<close>

fun scanCacheEntries :: "node \<Rightarrow> nat \<Rightarrow> path \<Rightarrow> string list \<Rightarrow> entry list
    \<Rightarrow> entry list \<times> error option" where
  "scanCacheEntries fs sizeThreshold fullPath [] cacheFiles = (cacheFiles, None)"
| "scanCacheEntries fs sizeThreshold fullPath (file # rest) cacheFiles =
     (let filePath = fullPath @ [file] in
      case stat fs filePath of
        Inl err \<Rightarrow> (cacheFiles, Some err)
      | Inr stats \<Rightarrow>
          (case (if stat_isDirectory stats then getFileSizeRecursive fs filePath
                 else Inr (stat_size stats)) of
             Inl err \<Rightarrow> (cacheFiles, Some err)
           | Inr size' \<Rightarrow>
               scanCacheEntries fs sizeThreshold fullPath rest
                 (if size' \<ge> sizeThreshold
                  then cacheFiles @
                    [\<lparr>path = filePath, sizeBytes = size',
                      isDirectory = stat_isDirectory stats\<rparr>]
                  else cacheFiles)))"

text \<open>
  The loop over the entries of the base directory of a wildcard pattern (lines 132--149):
  \<^verbatim>\<open>path.join(baseDir, item, pattern)\<close> is the location of \<open>baseDir\<close>, then
  \<open>item\<close>, then the names of \<open>pattern\<close>.
\<close>

fun scanCacheItems :: "node \<Rightarrow> nat \<Rightarrow> path \<Rightarrow> path \<Rightarrow> string list \<Rightarrow> entry list
    \<Rightarrow> entry list \<times> error option" where
  "scanCacheItems fs sizeThreshold baseDir pattern [] cacheFiles = (cacheFiles, None)"
| "scanCacheItems fs sizeThreshold baseDir pattern (item # rest) cacheFiles =
     (let fullPath = baseDir @ [item] @ pattern in
      if existsSync fs fullPath then
        (case readdir fs fullPath of
           Inl err \<Rightarrow> (cacheFiles, Some err)
         | Inr files \<Rightarrow>
             (case scanCacheEntries fs sizeThreshold fullPath files cacheFiles of
                (cacheFiles', Some err) \<Rightarrow> (cacheFiles', Some err)
              | (cacheFiles', None) \<Rightarrow>
                  scanCacheItems fs sizeThreshold baseDir pattern rest cacheFiles'))
      else scanCacheItems fs sizeThreshold baseDir pattern rest cacheFiles)"

text \<open>
  The body of the \<^verbatim>\<open>try\<close> of lines 120--170 for one element of
  \<^verbatim>\<open>cacheDirs\<close>, with its \<^verbatim>\<open>catch\<close>: whatever fails inside, the loop over
  \<^verbatim>\<open>cacheDirs\<close> goes on with the entries pushed so far.
\<close>

definition scanCacheDir :: "node \<Rightarrow> string \<Rightarrow> nat \<Rightarrow> string \<Rightarrow> entry list \<Rightarrow> entry list" where
  "scanCacheDir fs home sizeThreshold dir cacheFiles =
     (let expandedDir = expandHome home dir in
      if CHR ''*'' \<in> set expandedDir then
        (let baseDir = takeWhile (\<lambda>c. c \<noteq> CHR ''*'') expandedDir;
             pattern = drop 1 (dropWhile (\<lambda>c. c \<noteq> CHR ''*'') expandedDir) in
         if \<not> existsSync fs (locate baseDir) then cacheFiles
         else
           (case readdir fs (locate baseDir) of
              Inl err \<Rightarrow> cacheFiles
            | Inr items \<Rightarrow>
                fst (scanCacheItems fs sizeThreshold (locate baseDir) (locate pattern)
                       items cacheFiles)))
      else
        if \<not> existsSync fs (locate expandedDir) then cacheFiles
        else
          (case readdir fs (locate expandedDir) of
             Inl err \<Rightarrow> cacheFiles
           | Inr files \<Rightarrow>
               fst (scanCacheEntries fs sizeThreshold (locate expandedDir) files cacheFiles)))"

fun scanCacheDirs :: "node \<Rightarrow> string \<Rightarrow> nat \<Rightarrow> string list \<Rightarrow> entry list \<Rightarrow> entry list" where
  "scanCacheDirs fs home sizeThreshold [] cacheFiles = cacheFiles"
| "scanCacheDirs fs home sizeThreshold (dir # rest) cacheFiles =
     scanCacheDirs fs home sizeThreshold rest (scanCacheDir fs home sizeThreshold dir cacheFiles)"

text \<open>
  \<^verbatim>\<open>scanCacheFiles\<close> (lines 114--179); the source's default is
  \<open>sizeThreshold = GB div 2\<close>. Nothing rejects outside the inner \<^verbatim>\<open>try\<close>, so the
  \<^verbatim>\<open>catch\<close> of line 175 is never entered.
\<close>

definition scanCacheFiles :: "node \<Rightarrow> string \<Rightarrow> nat \<Rightarrow> entry list" where
  "scanCacheFiles fs home sizeThreshold = scanCacheDirs fs home sizeThreshold cacheDirs []"

section \<open>Selection and deletion\<close>

text \<open>
  \<^verbatim>\<open>files.sort((a, b) => b.size - a.size)\<close> (line 184).
  \<^verbatim>\<open>Array.prototype.sort\<close> is a stable sort by the comparator; it is modelled as
  the insertion sort that keeps the order of the elements that the comparator takes for
  equal.
\<close>

fun insertBy :: "('a \<Rightarrow> 'a \<Rightarrow> int) \<Rightarrow> 'a \<Rightarrow> 'a list \<Rightarrow> 'a list" where
  "insertBy cmp x [] = [x]"
| "insertBy cmp x (y # ys) = (if cmp x y \<le> 0 then x # y # ys else y # insertBy cmp x ys)"

definition sortBy :: "('a \<Rightarrow> 'a \<Rightarrow> int) \<Rightarrow> 'a list \<Rightarrow> 'a list" where
  "sortBy cmp xs = foldr (insertBy cmp) xs []"

definition bySizeDescending :: "entry \<Rightarrow> entry \<Rightarrow> int" where
  "bySizeDescending a b = int (sizeBytes b) - int (sizeBytes a)"

text \<open>
  What \<^verbatim>\<open>selectFilesToDelete\<close> (lines 182--221) presents: the sorted array, the
  \<^verbatim>\<open>value\<close> of every choice of the checkbox prompt in the order of the prompt, the
  rows of the table and the total. The operator's answer \<open>pick\<close> is a function of the
  choices.
\<close>

record presentation =
  sorted_files :: "entry list"
  choices :: "path list"
  top5 :: "entry list"
  total :: nat

definition present :: "entry list \<Rightarrow> presentation" where
  "present files =
     (let sorted = sortBy bySizeDescending files in
      \<lparr>sorted_files = sorted,
       choices = map path sorted,
       top5 = take 5 sorted,
       total = foldl (\<lambda>acc file. plusNumber acc (sizeBytes file)) 0 sorted\<rparr>)"

definition selectFilesToDelete :: "(path list \<Rightarrow> path list) \<Rightarrow> entry list \<Rightarrow> path list" where
  "selectFilesToDelete pick files = pick (choices (present files))"

text \<open>
  Removing the entry at a location. The root of the tree is never removed.
\<close>

function remove :: "node \<Rightarrow> path \<Rightarrow> node" where
  "remove (Dir cs) [c] = Dir (filter (\<lambda>kv. fst kv \<noteq> c) cs)"
| "remove (Dir cs) (c # d # p) =
     Dir (map (\<lambda>kv. if fst kv = c then (fst kv, remove (snd kv) (d # p)) else kv) cs)"
| "remove (File n) p = File n"
| "remove NoRead p = NoRead"
| "remove NoStat p = NoStat"
| "remove (Dir cs) [] = Dir cs"
  by pat_completeness auto
termination
  by (relation "measure (\<lambda>(n, p). length p)") auto

text \<open>
  \<^verbatim>\<open>fs.promises.unlink(file)\<close> and
  \<^verbatim>\<open>fs.promises.rm(file, { recursive: true, force: true })\<close>. The predicate
  \<open>locked\<close> holds of the locations that the operating system refuses to remove
  (permission denied, busy). With \<^verbatim>\<open>force\<close>, \<^verbatim>\<open>rm\<close> does not fail on a
  missing path. A removal that fails leaves the tree as it was: what a recursive removal
  has removed of a directory's contents before it fails is not modelled.
\<close>

definition unlink :: "node \<Rightarrow> (path \<Rightarrow> bool) \<Rightarrow> path \<Rightarrow> error + node" where
  "unlink fs locked p =
     (case lookup fs p of
        None \<Rightarrow> Inl ENOENT
      | Some (File n) \<Rightarrow> if p = [] \<or> locked p then Inl EACCES else Inr (remove fs p)
      | Some (Dir cs) \<Rightarrow> Inl EPERM
      | Some NoRead \<Rightarrow> Inl EPERM
      | Some NoStat \<Rightarrow> if p = [] \<or> locked p then Inl EACCES else Inr (remove fs p))"

definition rm :: "node \<Rightarrow> (path \<Rightarrow> bool) \<Rightarrow> path \<Rightarrow> error + node" where
  "rm fs locked p =
     (case lookup fs p of
        None \<Rightarrow> Inr fs
      | Some n \<Rightarrow> if p = [] \<or> locked p then Inl EACCES else Inr (remove fs p))"

text \<open>
  \<^verbatim>\<open>deleteFiles\<close> (lines 224--264). \<open>confirm\<close> is the operator's answer to the
  confirmation prompt, which is asked only when \<open>files\<close> is not empty. The result is the
  filesystem after the call and what the call reports.
\<close>

datatype report = NoFilesSelected | OperationCancelled | Deleted nat nat

definition deleteOne :: "node \<Rightarrow> (path \<Rightarrow> bool) \<Rightarrow> path \<Rightarrow> error + node" where
  "deleteOne fs locked file =
     (case stat fs file of
        Inl err \<Rightarrow> Inl err
      | Inr stats \<Rightarrow> if stat_isDirectory stats then rm fs locked file else unlink fs locked file)"

fun deleteLoop :: "node \<Rightarrow> (path \<Rightarrow> bool) \<Rightarrow> path list \<Rightarrow> nat \<Rightarrow> nat \<Rightarrow> node \<times> nat \<times> nat" where
  "deleteLoop fs locked [] deletedCount errorCount = (fs, deletedCount, errorCount)"
| "deleteLoop fs locked (file # rest) deletedCount errorCount =
     (case deleteOne fs locked file of
        Inl err \<Rightarrow> deleteLoop fs locked rest deletedCount (errorCount + 1)
      | Inr fs' \<Rightarrow> deleteLoop fs' locked rest (deletedCount + 1) errorCount)"

definition deleteFiles :: "node \<Rightarrow> (path \<Rightarrow> bool) \<Rightarrow> bool \<Rightarrow> path list \<Rightarrow> node \<times> report" where
  "deleteFiles fs locked confirm files =
     (if length files = 0 then (fs, NoFilesSelected)
      else if \<not> confirm then (fs, OperationCancelled)
      else
        (case deleteLoop fs locked files 0 0 of
           (fs', deletedCount, errorCount) \<Rightarrow> (fs', Deleted deletedCount errorCount)))"

section \<open>Definitions used by the statements and the proofs\<close>

text \<open>
  The value that \<^verbatim>\<open>await getFileSizeRecursive(p)\<close> yields, with 0 for a rejection.
\<close>

definition aggregate :: "node \<Rightarrow> path \<Rightarrow> nat" where
  "aggregate fs p = (case getFileSizeRecursive fs p of Inl err \<Rightarrow> 0 | Inr n \<Rightarrow> n)"

text \<open>
  The specification's words for the Size Aggregator: the sizes of all readable leaf files
  of a subtree, and their sum for the subtree at a location. A location that does not
  resolve, an entry that cannot be statted and a directory that cannot be enumerated have
  no readable leaf file.
\<close>

fun readableFiles :: "node \<Rightarrow> nat list" where
  "readableFiles (File n) = [n]"
| "readableFiles (Dir cs) = concat (map (\<lambda>kv. readableFiles (snd kv)) cs)"
| "readableFiles NoRead = []"
| "readableFiles NoStat = []"

definition reachableSum :: "node \<Rightarrow> path \<Rightarrow> nat" where
  "reachableSum fs p = (case lookup fs p of None \<Rightarrow> 0 | Some n \<Rightarrow> sum_list (readableFiles n))"

text \<open>A directory of a real filesystem lists every name once.\<close>

fun distinctNames :: "node \<Rightarrow> bool" where
  "distinctNames (Dir cs) = (distinct (map fst cs) \<and> (\<forall>kv \<in> set cs. distinctNames (snd kv)))"
| "distinctNames n = True"

text \<open>
  What the loop of \<^verbatim>\<open>scanDir\<close> does with one entry, read off the
  branches of lines 63--92 and used to state the loop's equation in one piece
  (\<open>scanLoop_Cons\<close> below): it skips the entry, pushes a candidate, or calls
  \<^verbatim>\<open>scanDir\<close> on it.
\<close>

datatype action = Skip | Emit entry | Descend

definition classify :: "node \<Rightarrow> nat \<Rightarrow> path \<Rightarrow> action" where
  "classify fs sizeThreshold filePath =
     (case stat fs filePath of
        Inl err \<Rightarrow> Skip
      | Inr stats \<Rightarrow>
          if stat_isDirectory stats then
            (if aggregate fs filePath \<ge> sizeThreshold
             then Emit \<lparr>path = filePath, sizeBytes = aggregate fs filePath, isDirectory = True\<rparr>
             else Descend)
          else if stat_size stats \<ge> sizeThreshold
            then Emit \<lparr>path = filePath, sizeBytes = stat_size stats, isDirectory = False\<rparr>
            else Skip)"



text \<open>
  The trees of the examples list the entries of every directory in the order of their
  names, as \<^verbatim>\<open>fs.promises.readdir\<close> of Node.js returns them.

  A home directory with a documents folder: one file of 2 GiB, a folder that holds
  1.5 GiB next to an entry that cannot be statted and a directory that cannot be
  enumerated, and a folder of two small files.
\<close>

definition documentsTree :: node where
  "documentsTree =
     Dir [(''home'', Dir [(''Documents'', Dir
       [(''bigfile'', File (2 * GB)),
        (''cache'', Dir
          [(''dangling'', NoStat), (''part1'', File GB), (''part2'', File (GB div 2)),
           (''private'', NoRead)]),
        (''sub'', Dir [(''small1'', File 10485760), (''small2'', File 20971520)])])])]"

text \<open>
  A filesystem with the cache directories of the user \<^verbatim>\<open>me\<close>: the first entry of
  \<^verbatim>\<open>~/Library/Caches\<close>, \<^verbatim>\<open>broken.link\<close>, cannot be statted, and the second,
  \<^verbatim>\<open>huge.cache\<close>, is a file of 1 GiB.
\<close>

definition cacheTree :: node where
  "cacheTree =
     Dir [(''Library'', Dir [(''Caches'', Dir [(''sys'', File GB)])]),
          (''Users'', Dir [(''me'', Dir [(''Library'', Dir
            [(''Application Support'', Dir
                [(''Editor'', Dir [(''Caches'', Dir
                    [(''blob'', Dir [(''a'', File (GB div 2)), (''b'', File 7)])])]),
                 (''Mail'', Dir [(''Data'', File 3)])]),
             (''Caches'', Dir [(''broken.link'', NoStat), (''huge.cache'', File GB)]),
             (''Logs'', Dir [(''huge.log'', File GB), (''tiny.log'', File 5)])])])])]"

text \<open>
  An archive of two files, of \<open>2 ^ 53\<close> bytes and of one byte.
\<close>

definition archiveTree :: node where
  "archiveTree =
     Dir [(''archive'', Dir [(''a.bin'', File 9007199254740992), (''b.bin'', File 1)])]"

text \<open>
  The operating system refuses to remove the folder \<^verbatim>\<open>cache\<close> of the documents
  example, and nothing else.
\<close>

definition lockedCache :: "path \<Rightarrow> bool" where
  "lockedCache p = (p = [''home'', ''Documents'', ''cache''])"

text \<open>Three candidates, as a scan could return them, for the sorting example.\<close>

definition unsortedFiles :: "entry list" where
  "unsortedFiles =
     [\<lparr>path = [''home'', ''a''], sizeBytes = 5, isDirectory = False\<rparr>,
      \<lparr>path = [''home'', ''b''], sizeBytes = 20, isDirectory = True\<rparr>,
      \<lparr>path = [''home'', ''c''], sizeBytes = 10, isDirectory = False\<rparr>]"




section \<open>Properties of the numbers\<close>

lemma exact_limit_even: "\<exists>h. exact_limit = 2 * h"
  by (rule exI[of _ "2 ^ 52"]) (simp add: exact_limit_def)

lemma expo_small: "n < exact_limit \<Longrightarrow> expo n = 0"
  by (subst expo.simps) simp

lemma expo_large: "\<not> n < exact_limit \<Longrightarrow> expo n = Suc (expo (n div 2))"
  by (subst expo.simps) simp

lemma expo_upper: "n < exact_limit * 2 ^ expo n"
proof (induction n rule: expo.induct)
  case (1 n)
  show ?case
  proof (cases "n < exact_limit")
    case True
    then show ?thesis by (simp add: expo_small)
  next
    case False
    with 1 have "n div 2 < exact_limit * 2 ^ expo (n div 2)" by simp
    then have "n < 2 * (exact_limit * 2 ^ expo (n div 2))" by linarith
    with False show ?thesis by (simp add: expo_large mult.commute mult.left_commute)
  qed
qed

lemma expo_lower: "0 < expo n \<Longrightarrow> exact_limit * 2 ^ expo n \<le> 2 * n"
proof (induction n rule: expo.induct)
  case (1 n)
  show ?case
  proof (cases "n < exact_limit")
    case True
    with 1(2) show ?thesis by (simp add: expo_small)
  next
    case False
    show ?thesis
    proof (cases "expo (n div 2) = 0")
      case True
      with False show ?thesis by (simp add: expo_large)
    next
      case nz: False
      with 1(1) False have "exact_limit * 2 ^ expo (n div 2) \<le> 2 * (n div 2)" by simp
      then have "2 * (exact_limit * 2 ^ expo (n div 2)) \<le> 2 * n" by linarith
      with False show ?thesis by (simp add: expo_large mult.commute mult.left_commute)
    qed
  qed
qed

lemma expo_le: "n < exact_limit * 2 ^ k \<Longrightarrow> expo n \<le> k"
proof (induction n arbitrary: k rule: expo.induct)
  case (1 n)
  show ?case
  proof (cases "n < exact_limit")
    case True
    then show ?thesis by (simp add: expo_small)
  next
    case False
    with 1(2) have "k \<noteq> 0" by (cases k) auto
    then obtain j where k: "k = Suc j" by (cases k) auto
    with 1(2) have "n < 2 * (exact_limit * 2 ^ j)" by (simp add: mult.commute mult.left_commute)
    then have "n div 2 < exact_limit * 2 ^ j" by linarith
    with 1(1) False have "expo (n div 2) \<le> j" by simp
    with False k show ?thesis by (simp add: expo_large)
  qed
qed

lemma expo_mono: "a \<le> b \<Longrightarrow> expo a \<le> expo b"
proof -
  assume "a \<le> b"
  also have "b < exact_limit * 2 ^ expo b" by (rule expo_upper)
  finally show ?thesis by (rule expo_le)
qed

lemma roundTo_lower: "(n div u) * u \<le> roundTo u n"
  by (simp add: roundTo_def Let_def)

lemma roundTo_upper: "roundTo u n \<le> (n div u + 1) * u"
  by (simp add: roundTo_def Let_def)

lemma roundTo_dvd: "u dvd n \<Longrightarrow> 0 < u \<Longrightarrow> roundTo u n = n"
  by (auto simp: roundTo_def Let_def)

lemma roundTo_mono:
  assumes u: "0 < u" and le: "a \<le> b"
  shows "roundTo u a \<le> roundTo u b"
proof (cases "a div u = b div u")
  case True
  have "a = (a div u) * u + a mod u" "b = (b div u) * u + b mod u" by simp_all
  with le True have "a mod u \<le> b mod u"
    by (metis add_le_cancel_left)
  with True show ?thesis
    by (auto simp: roundTo_def Let_def)
next
  case False
  from le have "a div u \<le> b div u" by (rule div_le_mono)
  with False have "a div u + 1 \<le> b div u" by simp
  then have "(a div u + 1) * u \<le> (b div u) * u" by (rule mult_le_mono1)
  with roundTo_upper[of u a] roundTo_lower[of b u] show ?thesis by linarith
qed

lemma toNumber_le_limit: "toNumber a \<le> exact_limit * 2 ^ expo a"
proof -
  let ?u = "2 ^ expo a :: nat"
  have "a < exact_limit * ?u" by (rule expo_upper)
  then have "a div ?u < exact_limit" by (simp add: less_mult_imp_div_less)
  then have "a div ?u + 1 \<le> exact_limit" by simp
  then have "(a div ?u + 1) * ?u \<le> exact_limit * ?u" by (rule mult_le_mono1)
  with roundTo_upper[of ?u a] show ?thesis by (simp add: toNumber_def)
qed

lemma toNumber_mono: "a \<le> b \<Longrightarrow> toNumber a \<le> toNumber b"
proof -
  assume le: "a \<le> b"
  then have e: "expo a \<le> expo b" by (rule expo_mono)
  show ?thesis
  proof (cases "expo a = expo b")
    case True
    with le show ?thesis by (simp add: toNumber_def roundTo_mono)
  next
    case False
    with e obtain d where d: "expo b = Suc (expo a + d)"
      by (metis less_iff_Suc_add le_neq_implies_less)
    let ?ua = "2 ^ expo a :: nat" and ?ub = "2 ^ expo b :: nat"
    obtain h where h: "exact_limit = 2 * h" using exact_limit_even by blast
    from d have "exact_limit * ?ub \<le> 2 * b" by (intro expo_lower) simp
    then have "2 * (h * ?ub) \<le> 2 * b" unfolding h by (simp add: mult.assoc)
    then have "h * ?ub \<le> b" by linarith
    then have "h \<le> b div ?ub" by (simp add: less_eq_div_iff_mult_less_eq)
    then have "h * ?ub \<le> (b div ?ub) * ?ub" by (rule mult_le_mono1)
    from this roundTo_lower[of b ?ub] have ub: "h * ?ub \<le> toNumber b"
      unfolding toNumber_def by (rule order_trans)
    from d have "?ub = 2 * ?ua * 2 ^ d" by (simp add: power_add)
    then have "h * ?ub = exact_limit * ?ua * 2 ^ d" using h by simp
    then have "exact_limit * ?ua \<le> h * ?ub" by simp
    with toNumber_le_limit[of a] ub show ?thesis by linarith
  qed
qed

lemma toNumber_exact: "n \<le> exact_limit \<Longrightarrow> toNumber n = n"
proof (cases "n < exact_limit")
  case True
  then show ?thesis by (simp add: toNumber_def expo_small roundTo_def)
next
  case False
  assume "n \<le> exact_limit"
  with False have n: "n = exact_limit" by simp
  obtain h where h: "exact_limit = 2 * h" using exact_limit_even by blast
  have "expo n \<le> 1" using n exact_limit_pos by (intro expo_le) simp
  moreover have "expo n \<noteq> 0" using False by (simp add: expo_large)
  ultimately have "expo n = 1" by simp
  moreover have "(2::nat) dvd exact_limit" unfolding h by simp
  ultimately show ?thesis using n by (simp add: toNumber_def roundTo_dvd)
qed

lemma toNumber_idem: "toNumber (toNumber n) = toNumber n"
proof -
  let ?e = "expo n" and ?m = "toNumber n"
  let ?u = "2 ^ expo n :: nat"
  have dv: "?u dvd ?m" by (simp add: toNumber_def roundTo_def Let_def)
  have "?m \<le> exact_limit * ?u" by (rule toNumber_le_limit)
  also have "\<dots> < exact_limit * 2 ^ Suc ?e" using exact_limit_pos by simp
  finally have le: "expo ?m \<le> Suc ?e" by (rule expo_le)
  have "2 ^ expo ?m dvd ?m"
  proof (cases "expo ?m \<le> ?e")
    case True
    then have "(2::nat) ^ expo ?m dvd ?u" by (rule le_imp_power_dvd)
    from this dv show ?thesis by (rule dvd_trans)
  next
    case False
    with le have eq: "expo ?m = Suc ?e" by simp
    then have "exact_limit * 2 ^ Suc ?e \<le> 2 * ?m" by (intro expo_lower[of ?m, unfolded eq]) simp
    then have "exact_limit * ?u \<le> ?m" by simp
    with \<open>?m \<le> exact_limit * ?u\<close> have m: "?m = exact_limit * ?u" by simp
    obtain h where h: "exact_limit = 2 * h" using exact_limit_even by blast
    with m have "?m = h * 2 ^ Suc ?e" by simp
    with eq show ?thesis by simp
  qed
  then show ?thesis by (simp add: toNumber_def[of "toNumber n"] roundTo_dvd)
qed

section \<open>Properties of the Size Aggregator\<close>

lemma lookup_append:
  "lookup fs (p @ q) = (case lookup fs p of None \<Rightarrow> None | Some n \<Rightarrow> lookup n q)"
  by (induction fs p rule: lookup.induct) (auto split: option.splits)

lemma foldl_plusNumber_exact:
  "a + sum_list xs \<le> exact_limit \<Longrightarrow> foldl plusNumber a xs = a + sum_list xs"
proof (induction xs arbitrary: a)
  case Nil
  show ?case by simp
next
  case (Cons x xs)
  then have "a + x \<le> exact_limit" by simp
  then have p: "plusNumber a x = a + x" by (simp add: plusNumber_def toNumber_exact)
  from Cons.prems have "(a + x) + sum_list xs \<le> exact_limit" by simp
  then have "foldl plusNumber (a + x) xs = (a + x) + sum_list xs" by (rule Cons.IH)
  with p show ?case by simp
qed

lemma plusNumber_representable: "toNumber (plusNumber a b) = plusNumber a b"
  unfolding plusNumber_def by (rule toNumber_idem)

lemma foldl_plusNumber_representable:
  "toNumber a = a \<Longrightarrow> toNumber (foldl plusNumber a xs) = foldl plusNumber a xs"
proof (induction xs arbitrary: a)
  case Nil
  then show ?case by simp
next
  case (Cons x xs)
  have "toNumber (foldl plusNumber (plusNumber a x) xs) = foldl plusNumber (plusNumber a x) xs"
    by (rule Cons.IH) (rule plusNumber_representable)
  then show ?case by simp
qed

lemma plusNumber_ge:
  assumes "toNumber a = a" and "toNumber x = x"
  shows "a \<le> plusNumber a x" and "x \<le> plusNumber a x"
proof -
  have "toNumber a \<le> toNumber (a + x)" by (rule toNumber_mono) simp
  with assms(1) show "a \<le> plusNumber a x" by (simp add: plusNumber_def)
  have "toNumber x \<le> toNumber (a + x)" by (rule toNumber_mono) simp
  with assms(2) show "x \<le> plusNumber a x" by (simp add: plusNumber_def)
qed

lemma foldl_plusNumber_ge:
  "toNumber a = a \<Longrightarrow> \<forall>x \<in> set xs. toNumber x = x \<Longrightarrow>
     a \<le> foldl plusNumber a xs \<and> (\<forall>x \<in> set xs. x \<le> foldl plusNumber a xs)"
proof (induction xs arbitrary: a)
  case Nil
  show ?case by simp
next
  case (Cons x xs)
  let ?b = "plusNumber a x"
  from Cons.prems have rx: "toNumber x = x" and rest: "\<forall>x \<in> set xs. toNumber x = x"
    by simp_all
  from Cons.prems(1) rx have ab: "a \<le> ?b" and xb: "x \<le> ?b" by (rule plusNumber_ge)+
  from Cons.IH[OF plusNumber_representable rest, of a x]
  have 1: "?b \<le> foldl plusNumber ?b xs"
    and 2: "\<forall>y \<in> set xs. y \<le> foldl plusNumber ?b xs" by simp_all
  from ab 1 have "a \<le> foldl plusNumber ?b xs" by (rule order_trans)
  moreover from xb 1 have "x \<le> foldl plusNumber ?b xs" by (rule order_trans)
  ultimately show ?case using 2 by simp
qed

lemma sum_list_concat_map:
  "sum_list (concat (map f xs)) = sum_list (map (\<lambda>x. sum_list (f x)) (xs :: 'a list) :: nat list)"
  by (induction xs) auto

lemma distinctNames_lookup:
  "distinctNames fs \<Longrightarrow> lookup fs p = Some n \<Longrightarrow> distinctNames n"
proof (induction fs p rule: lookup.induct)
  case (2 cs c p)
  then obtain x where x: "map_of cs c = Some x" and l: "lookup x p = Some n"
    by (auto split: option.splits)
  from x have "(c, x) \<in> set cs" by (rule map_of_SomeD)
  with 2 x l show ?case by auto
qed auto

lemma getFileSizeRecursive_returns: "\<exists>n. getFileSizeRecursive fs p = Inr n"
  by (subst getFileSizeRecursive.simps) (simp split: sum.splits)

lemma getFileSizeRecursive_aggregate: "getFileSizeRecursive fs p = Inr (aggregate fs p)"
  using getFileSizeRecursive_returns[of fs p] by (auto simp: aggregate_def)

lemma aggregate_missing: "lookup fs p = None \<Longrightarrow> aggregate fs p = 0"
  unfolding aggregate_def by (subst getFileSizeRecursive.simps) (simp add: stat_def)

lemma aggregate_File: "lookup fs p = Some (File n) \<Longrightarrow> aggregate fs p = toNumber n"
  unfolding aggregate_def by (subst getFileSizeRecursive.simps) (simp add: stat_def)

lemma aggregate_NoRead: "lookup fs p = Some NoRead \<Longrightarrow> aggregate fs p = 0"
  unfolding aggregate_def by (subst getFileSizeRecursive.simps) (simp add: stat_def readdir_def)

lemma aggregate_NoStat: "lookup fs p = Some NoStat \<Longrightarrow> aggregate fs p = 0"
  unfolding aggregate_def by (subst getFileSizeRecursive.simps) (simp add: stat_def)

lemma aggregate_Dir:
  "lookup fs p = Some (Dir cs) \<Longrightarrow>
   aggregate fs p = foldl plusNumber 0 (map (\<lambda>file. aggregate fs (p @ [file])) (map fst cs))"
  unfolding aggregate_def
  by (subst getFileSizeRecursive.simps) (simp add: stat_def readdir_def comp_def)

lemma toNumber_0: "toNumber 0 = 0"
  by (simp add: toNumber_exact)

lemma aggregate_representable: "toNumber (aggregate fs p) = aggregate fs p"
proof (cases "lookup fs p")
  case None
  then show ?thesis by (simp add: aggregate_missing toNumber_0)
next
  case (Some n)
  show ?thesis
  proof (cases n)
    case (File x)
    with Some show ?thesis by (simp add: aggregate_File toNumber_idem)
  next
    case (Dir cs)
    with Some show ?thesis
      by (simp only: aggregate_Dir foldl_plusNumber_representable[OF toNumber_0])
  next
    case NoRead
    with Some show ?thesis by (simp add: aggregate_NoRead toNumber_0)
  next
    case NoStat
    with Some show ?thesis by (simp add: aggregate_NoStat toNumber_0)
  qed
qed

lemma aggregate_readableFiles:
  "distinctNames n \<Longrightarrow> lookup fs p = Some n \<Longrightarrow> sum_list (readableFiles n) \<le> exact_limit \<Longrightarrow>
     aggregate fs p = sum_list (readableFiles n)"
proof (induction n arbitrary: p)
  case (File x)
  then show ?case by (simp add: aggregate_File toNumber_exact)
next
  case (Dir cs)
  have "aggregate fs (p @ [fst kv]) = sum_list (readableFiles (snd kv))" if kv: "kv \<in> set cs" for kv
  proof -
    from Dir.prems(1) kv have d: "distinct (map fst cs)" and dn: "distinctNames (snd kv)" by auto
    from d kv have "map_of cs (fst kv) = Some (snd kv)" by simp
    with Dir.prems(2) have l: "lookup fs (p @ [fst kv]) = Some (snd kv)"
      by (simp add: lookup_append)
    from kv have "sum_list (readableFiles (snd kv)) \<in> set (map (\<lambda>kv. sum_list (readableFiles (snd kv))) cs)"
      by auto
    then have "sum_list (readableFiles (snd kv)) \<le> sum_list (map (\<lambda>kv. sum_list (readableFiles (snd kv))) cs)"
      by (simp add: member_le_sum_list)
    with Dir.prems(3) have b: "sum_list (readableFiles (snd kv)) \<le> exact_limit"
      by (simp add: sum_list_concat_map)
    from Dir.IH[of kv "snd kv" "p @ [fst kv]"] kv dn l b show ?thesis
      by (cases kv) auto
  qed
  then have mapeq: "map (\<lambda>file. aggregate fs (p @ [file])) (map fst cs)
      = map (\<lambda>kv. sum_list (readableFiles (snd kv))) cs"
    by simp
  from Dir.prems(3)
  have "0 + sum_list (map (\<lambda>kv. sum_list (readableFiles (snd kv))) cs) \<le> exact_limit"
    by (simp add: sum_list_concat_map)
  then have exact: "foldl plusNumber 0 (map (\<lambda>kv. sum_list (readableFiles (snd kv))) cs)
      = 0 + sum_list (map (\<lambda>kv. sum_list (readableFiles (snd kv))) cs)"
    by (rule foldl_plusNumber_exact)
  from Dir.prems(2)
  have "aggregate fs p = foldl plusNumber 0 (map (\<lambda>file. aggregate fs (p @ [file])) (map fst cs))"
    by (rule aggregate_Dir)
  also have "\<dots> = foldl plusNumber 0 (map (\<lambda>kv. sum_list (readableFiles (snd kv))) cs)"
    by (simp only: mapeq)
  also have "\<dots> = sum_list (map (\<lambda>kv. sum_list (readableFiles (snd kv))) cs)"
    using exact by simp
  also have "\<dots> = sum_list (readableFiles (Dir cs))"
    by (simp add: sum_list_concat_map)
  finally show ?case .
next
  case NoRead
  then show ?case by (simp add: aggregate_NoRead)
next
  case NoStat
  then show ?case by (simp add: aggregate_NoStat)
qed

lemma aggregate_child_le: "aggregate fs (p @ [c]) \<le> aggregate fs p"
proof (cases "lookup fs p")
  case None
  then show ?thesis by (simp add: aggregate_missing lookup_append)
next
  case (Some n)
  show ?thesis
  proof (cases n)
    case (Dir cs)
    show ?thesis
    proof (cases "c \<in> set (map fst cs)")
      case True
      let ?sizes = "map (\<lambda>file. aggregate fs (p @ [file])) (map fst cs)"
      from True have m: "aggregate fs (p @ [c]) \<in> set ?sizes" by auto
      have r: "\<forall>x \<in> set ?sizes. toNumber x = x" by (auto simp: aggregate_representable)
      from foldl_plusNumber_ge[OF toNumber_0 r]
      have "\<forall>x \<in> set ?sizes. x \<le> foldl plusNumber 0 ?sizes" by (rule conjunct2)
      with m have "aggregate fs (p @ [c]) \<le> foldl plusNumber 0 ?sizes" by (rule bspec[rotated])
      with Some Dir show ?thesis by (simp only: aggregate_Dir)
    next
      case False
      then have "map_of cs c = None" by (simp add: map_of_eq_None_iff)
      with Some Dir have "lookup fs (p @ [c]) = None" by (simp add: lookup_append)
      then show ?thesis by (simp add: aggregate_missing)
    qed
  qed (use Some in \<open>simp_all add: aggregate_missing lookup_append\<close>)
qed

lemma aggregate_stat_file:
  "stat fs p = Inr st \<Longrightarrow> \<not> stat_isDirectory st \<Longrightarrow> aggregate fs p = stat_size st"
  by (auto simp: stat_def aggregate_File split: option.splits node.splits)

lemma getFileSizeRecursive_reachableSum:
  "distinctNames fs \<Longrightarrow> reachableSum fs p \<le> exact_limit \<Longrightarrow>
     getFileSizeRecursive fs p = Inr (reachableSum fs p)"
proof (cases "lookup fs p")
  case None
  then show ?thesis
    using getFileSizeRecursive_aggregate[of fs p] by (simp add: reachableSum_def aggregate_missing)
next
  case (Some n)
  assume d: "distinctNames fs" and b: "reachableSum fs p \<le> exact_limit"
  from d Some have "distinctNames n" by (rule distinctNames_lookup)
  moreover from b Some have "sum_list (readableFiles n) \<le> exact_limit"
    by (simp add: reachableSum_def)
  ultimately show ?thesis using Some getFileSizeRecursive_aggregate[of fs p]
    by (simp add: reachableSum_def aggregate_readableFiles)
qed

lemma aggregate_descendant_le: "aggregate fs (p @ q) \<le> aggregate fs p"
proof (induction q rule: rev_induct)
  case Nil
  show ?case by simp
next
  case (snoc c q)
  have "aggregate fs ((p @ q) @ [c]) \<le> aggregate fs (p @ q)" by (rule aggregate_child_le)
  with snoc show ?case by simp
qed

section \<open>Properties of the scanners\<close>

lemma scanLoop_Cons:
  "scanLoop fs listLimit sizeThreshold dir (f # rest) s =
     (case classify fs sizeThreshold (dir @ [f]) of
        Skip \<Rightarrow> scanLoop fs listLimit sizeThreshold dir rest s
      | Emit e \<Rightarrow>
          if listLimit \<le> length (results (push e s)) then (push e s, True)
          else scanLoop fs listLimit sizeThreshold dir rest (push e s)
      | Descend \<Rightarrow>
          scanLoop fs listLimit sizeThreshold dir rest
            (scanDir fs listLimit sizeThreshold (dir @ [f]) s))"
  by (simp add: classify_def getFileSizeRecursive_aggregate Let_def split: sum.splits)

declare scanLoop.simps(2) [simp del]

lemma classify_Emit:
  "classify fs sizeThreshold p = Emit e \<Longrightarrow>
     path e = p \<and> sizeBytes e = aggregate fs p \<and> sizeThreshold \<le> sizeBytes e"
  by (auto simp: classify_def aggregate_stat_file split: sum.splits if_splits)

lemma classify_Descend:
  "classify fs sizeThreshold p = Descend \<Longrightarrow> aggregate fs p < sizeThreshold"
  by (auto simp: classify_def split: sum.splits if_splits)

lemma scan_induct [case_names scanDir Nil Cons]:
  assumes dir: "\<And>dir s. (\<And>files. readdir fs dir = Inr files \<Longrightarrow> Q dir files (visit dir s)) \<Longrightarrow> P dir s"
    and nil: "\<And>dir s. Q dir [] s"
    and cons: "\<And>dir f rest s.
        (classify fs sizeThreshold (dir @ [f]) = Skip \<Longrightarrow> Q dir rest s) \<Longrightarrow>
        (\<And>e. classify fs sizeThreshold (dir @ [f]) = Emit e \<Longrightarrow>
              \<not> listLimit \<le> length (results (push e s)) \<Longrightarrow> Q dir rest (push e s)) \<Longrightarrow>
        (classify fs sizeThreshold (dir @ [f]) = Descend \<Longrightarrow> P (dir @ [f]) s) \<Longrightarrow>
        (classify fs sizeThreshold (dir @ [f]) = Descend \<Longrightarrow>
              Q dir rest (scanDir fs listLimit sizeThreshold (dir @ [f]) s)) \<Longrightarrow>
        Q dir (f # rest) s"
  shows "P dir s" and "Q dir files s"
proof -
  let ?P = "\<lambda>a b c dir s. a = fs \<longrightarrow> b = listLimit \<longrightarrow> c = sizeThreshold \<longrightarrow> P dir s"
  let ?Q = "\<lambda>a b c dir files s. a = fs \<longrightarrow> b = listLimit \<longrightarrow> c = sizeThreshold \<longrightarrow> Q dir files s"
  have "?P a b c dir s" and "?Q a b c dir files s" for a b c
  proof (induction a b c dir s and a b c dir files s rule: scanDir_scanLoop.induct)
    case (1 a b c dir s)
    show ?case
    proof (intro impI)
      assume eq: "a = fs" "b = listLimit" "c = sizeThreshold"
      show "P dir s"
      proof (rule dir)
        fix files assume "readdir fs dir = Inr files"
        with 1 eq show "Q dir files (visit dir s)" by simp
      qed
    qed
  next
    case (2 a b c dir s)
    show ?case by (simp add: nil)
  next
    case (3 a b c dir f rest s)
    show ?case
    proof (intro impI)
      assume eq: "a = fs" "b = listLimit" "c = sizeThreshold"
      show "Q dir (f # rest) s"
      proof (cases "stat fs (dir @ [f])")
        case (Inl err)
        then have c: "classify fs sizeThreshold (dir @ [f]) = Skip" by (simp add: classify_def)
        from "3.IH"(1)[OF refl] Inl eq have "Q dir rest s" by simp
        with c show ?thesis by (intro cons) simp_all
      next
        case (Inr st)
        show ?thesis
        proof (cases "stat_isDirectory st")
          case True
          note g = getFileSizeRecursive_aggregate[of fs "dir @ [f]"]
          show ?thesis
          proof (cases "sizeThreshold \<le> aggregate fs (dir @ [f])")
            case big: True
            let ?e = "\<lparr>path = dir @ [f], sizeBytes = aggregate fs (dir @ [f]), isDirectory = True\<rparr>"
            from Inr True big have c: "classify fs sizeThreshold (dir @ [f]) = Emit ?e"
              by (simp add: classify_def)
            have "Q dir rest (push ?e s)" if "\<not> listLimit \<le> length (results (push ?e s))"
              using "3.IH"(3)[OF refl _ _ _ _ refl] Inr True big g eq that by simp
            with c show ?thesis by (intro cons) simp_all
          next
            case small: False
            from Inr True small have c: "classify fs sizeThreshold (dir @ [f]) = Descend"
              by (simp add: classify_def)
            have "P (dir @ [f]) s"
              using "3.IH"(4)[OF refl] Inr True small g eq by simp
            moreover have "Q dir rest (scanDir fs listLimit sizeThreshold (dir @ [f]) s)"
              using "3.IH"(5)[OF refl] Inr True small g eq by simp
            ultimately show ?thesis using c by (intro cons) simp_all
          qed
        next
          case False
          show ?thesis
          proof (cases "sizeThreshold \<le> stat_size st")
            case big: True
            let ?e = "\<lparr>path = dir @ [f], sizeBytes = stat_size st, isDirectory = False\<rparr>"
            from Inr False big have c: "classify fs sizeThreshold (dir @ [f]) = Emit ?e"
              by (simp add: classify_def)
            have "Q dir rest (push ?e s)" if "\<not> listLimit \<le> length (results (push ?e s))"
              using "3.IH"(6)[OF refl _ _ _ refl] Inr False big eq that by simp
            with c show ?thesis by (intro cons) simp_all
          next
            case small: False
            from Inr False small have c: "classify fs sizeThreshold (dir @ [f]) = Skip"
              by (simp add: classify_def)
            from "3.IH"(7)[OF refl] Inr False small eq have "Q dir rest s" by simp
            with c show ?thesis by (intro cons) simp_all
          qed
        qed
      qed
    qed
  qed
  then show "P dir s" and "Q dir files s" by simp_all
qed



lemma scan_below_threshold:
  "aggregate fs dir < sizeThreshold \<Longrightarrow>
     results (scanDir fs listLimit sizeThreshold dir s) = results s"
  "aggregate fs dir < sizeThreshold \<Longrightarrow>
     results (fst (scanLoop fs listLimit sizeThreshold dir files s)) = results s"
proof (induction dir s and dir files s
    rule: scan_induct[where fs=fs and listLimit=listLimit and sizeThreshold=sizeThreshold])
  case (scanDir dir s)
  then show ?case
    by (simp add: scanDir.simps visit_def split: sum.splits)
next
  case (Nil dir s)
  show ?case by simp
next
  case (Cons dir f rest s)
  have le: "aggregate fs (dir @ [f]) < sizeThreshold"
    using aggregate_child_le[of fs dir f] Cons.prems by simp
  show ?case
  proof (cases "classify fs sizeThreshold (dir @ [f])")
    case Skip
    with Cons show ?thesis by (simp add: scanLoop_Cons)
  next
    case (Emit e)
    with le show ?thesis by (auto dest: classify_Emit)
  next
    case Descend
    with Cons le show ?thesis by (simp add: scanLoop_Cons)
  qed
qed

lemma scan_visits_grow:
  "set (visits s) \<subseteq> set (visits (scanDir fs listLimit sizeThreshold dir s))"
  "set (visits s) \<subseteq> set (visits (fst (scanLoop fs listLimit sizeThreshold dir files s)))"
proof (induction dir s and dir files s
    rule: scan_induct[where fs=fs and listLimit=listLimit and sizeThreshold=sizeThreshold])
  case (scanDir dir s)
  then show ?case
    by (auto simp: scanDir.simps visit_def split: sum.splits)
next
  case (Nil dir s)
  show ?case by simp
next
  case (Cons dir f rest s)
  show ?case
  proof (cases "classify fs sizeThreshold (dir @ [f])")
    case Skip
    with Cons show ?thesis by (simp add: scanLoop_Cons)
  next
    case (Emit e)
    with Cons show ?thesis by (auto simp: scanLoop_Cons push_def)
  next
    case Descend
    with Cons show ?thesis by (auto simp: scanLoop_Cons)
  qed
qed

lemma scanDir_visits_dir:
  "(dir, length (results s)) \<in> set (visits (scanDir fs listLimit sizeThreshold dir s))"
proof (cases "readdir fs dir")
  case (Inl err)
  then show ?thesis by (simp add: scanDir.simps visit_def)
next
  case (Inr files)
  have "(dir, length (results s)) \<in> set (visits (visit dir s))"
    by (simp add: visit_def)
  with scan_visits_grow(2)[of "visit dir s" fs listLimit sizeThreshold dir files]
  show ?thesis using Inr by (auto simp: scanDir.simps)
qed

lemma scan_below_threshold_visits:
  "aggregate fs dir < sizeThreshold \<Longrightarrow>
     v \<in> set (visits (scanDir fs listLimit sizeThreshold dir s)) \<Longrightarrow>
     v \<in> set (visits s) \<or> (prefix dir (fst v) \<and> snd v = length (results s))"
  "aggregate fs dir < sizeThreshold \<Longrightarrow>
     v \<in> set (visits (fst (scanLoop fs listLimit sizeThreshold dir files s))) \<Longrightarrow>
     v \<in> set (visits s) \<or> (prefix dir (fst v) \<and> snd v = length (results s))"
proof (induction dir s and dir files s
    rule: scan_induct[where fs=fs and listLimit=listLimit and sizeThreshold=sizeThreshold])
  case (scanDir dir s)
  then show ?case
    by (auto simp: scanDir.simps visit_def split: sum.splits)
next
  case (Nil dir s)
  then show ?case by simp
next
  case (Cons dir f rest s)
  have le: "aggregate fs (dir @ [f]) < sizeThreshold"
    using aggregate_child_le[of fs dir f] Cons.prems by simp
  show ?case
  proof (cases "classify fs sizeThreshold (dir @ [f])")
    case Skip
    with Cons show ?thesis by (simp add: scanLoop_Cons)
  next
    case (Emit e)
    with le show ?thesis by (auto dest: classify_Emit)
  next
    case Descend
    let ?s' = "scanDir fs listLimit sizeThreshold (dir @ [f]) s"
    have r: "results ?s' = results s" using le by (rule scan_below_threshold(1))
    from Cons.prems(2) Descend
    have v: "v \<in> set (visits (fst (scanLoop fs listLimit sizeThreshold dir rest ?s')))"
      by (simp add: scanLoop_Cons)
    from Cons.IH(4)[OF Descend Cons.prems(1) v]
    have "v \<in> set (visits ?s') \<or> (prefix dir (fst v) \<and> snd v = length (results ?s'))" .
    moreover have "v \<in> set (visits s) \<or> (prefix (dir @ [f]) (fst v) \<and> snd v = length (results s))"
      if "v \<in> set (visits ?s')"
      using Cons.IH(3)[OF Descend le that] .
    ultimately show ?thesis using r by (auto dest: append_prefixD)
  qed
qed


lemma scanLoop_results:
  "e \<in> set (results (fst (scanLoop fs listLimit sizeThreshold dir files s))) \<Longrightarrow>
     e \<in> set (results s) \<or> (\<exists>f \<in> set files. classify fs sizeThreshold (dir @ [f]) = Emit e)"
proof (induction files arbitrary: s)
  case Nil
  then show ?case by simp
next
  case (Cons f rest)
  show ?case
  proof (cases "classify fs sizeThreshold (dir @ [f])")
    case Skip
    with Cons show ?thesis by (auto simp: scanLoop_Cons)
  next
    case (Emit e')
    with Cons.prems Cons.IH[of "push e' s"] show ?thesis
      by (auto simp: scanLoop_Cons push_def split: if_splits)
  next
    case Descend
    then have "results (scanDir fs listLimit sizeThreshold (dir @ [f]) s) = results s"
      by (intro scan_below_threshold(1) classify_Descend)
    with Descend Cons.prems Cons.IH[of "scanDir fs listLimit sizeThreshold (dir @ [f]) s"]
    show ?thesis by (auto simp: scanLoop_Cons)
  qed
qed

lemma scanDir_results:
  "e \<in> set (results (scanDir fs listLimit sizeThreshold dir s)) \<Longrightarrow>
     e \<in> set (results s) \<or> (\<exists>f. classify fs sizeThreshold (dir @ [f]) = Emit e)"
proof (cases "readdir fs dir")
  case (Inl err)
  assume "e \<in> set (results (scanDir fs listLimit sizeThreshold dir s))"
  with Inl show ?thesis by (simp add: scanDir.simps visit_def)
next
  case (Inr files)
  assume "e \<in> set (results (scanDir fs listLimit sizeThreshold dir s))"
  with Inr have "e \<in> set (results (fst (scanLoop fs listLimit sizeThreshold dir files (visit dir s))))"
    by (simp add: scanDir.simps)
  from scanLoop_results[OF this] show ?thesis by (auto simp: visit_def)
qed

lemma scanLoop_visits:
  "v \<in> set (visits (fst (scanLoop fs listLimit sizeThreshold dir files s))) \<Longrightarrow>
     v \<in> set (visits s) \<or>
     (\<exists>f. classify fs sizeThreshold (dir @ [f]) = Descend \<and> prefix (dir @ [f]) (fst v))"
proof (induction files arbitrary: s)
  case Nil
  then show ?case by simp
next
  case (Cons f rest)
  show ?case
  proof (cases "classify fs sizeThreshold (dir @ [f])")
    case Skip
    with Cons show ?thesis by (auto simp: scanLoop_Cons)
  next
    case (Emit e')
    with Cons.prems Cons.IH[of "push e' s"] show ?thesis
      by (auto simp: scanLoop_Cons push_def split: if_splits)
  next
    case Descend
    let ?s' = "scanDir fs listLimit sizeThreshold (dir @ [f]) s"
    from Descend Cons.prems Cons.IH[of ?s']
    have "v \<in> set (visits ?s') \<or>
      (\<exists>f. classify fs sizeThreshold (dir @ [f]) = Descend \<and> prefix (dir @ [f]) (fst v))"
      by (simp add: scanLoop_Cons)
    moreover have "v \<in> set (visits s) \<or> prefix (dir @ [f]) (fst v)" if "v \<in> set (visits ?s')"
      using scan_below_threshold_visits(1)[OF classify_Descend[OF Descend] that] by auto
    ultimately show ?thesis using Descend by auto
  qed
qed

lemma scanDir_visits:
  "v \<in> set (visits (scanDir fs listLimit sizeThreshold dir s)) \<Longrightarrow>
     v \<in> set (visits s) \<or> fst v = dir \<or>
     (\<exists>f. classify fs sizeThreshold (dir @ [f]) = Descend \<and> prefix (dir @ [f]) (fst v))"
proof (cases "readdir fs dir")
  case (Inl err)
  assume "v \<in> set (visits (scanDir fs listLimit sizeThreshold dir s))"
  with Inl show ?thesis by (auto simp: scanDir.simps visit_def)
next
  case (Inr files)
  assume "v \<in> set (visits (scanDir fs listLimit sizeThreshold dir s))"
  with Inr have "v \<in> set (visits (fst (scanLoop fs listLimit sizeThreshold dir files (visit dir s))))"
    by (simp add: scanDir.simps)
  from scanLoop_visits[OF this] show ?thesis by (auto simp: visit_def)
qed

lemma scanLoop_cap:
  "length (results s) < listLimit \<Longrightarrow> \<forall>v \<in> set (visits s). snd v < listLimit \<Longrightarrow>
     length (results (fst (scanLoop fs listLimit sizeThreshold dir files s))) \<le> listLimit \<and>
     (\<forall>v \<in> set (visits (fst (scanLoop fs listLimit sizeThreshold dir files s))). snd v < listLimit)"
proof (induction files arbitrary: s)
  case Nil
  then show ?case by simp
next
  case (Cons f rest)
  show ?case
  proof (cases "classify fs sizeThreshold (dir @ [f])")
    case Skip
    with Cons show ?thesis by (simp add: scanLoop_Cons)
  next
    case (Emit e')
    show ?thesis
    proof (cases "listLimit \<le> length (results (push e' s))")
      case True
      with Emit Cons.prems show ?thesis by (simp add: scanLoop_Cons push_def)
    next
      case False
      with Cons.prems have "length (results (push e' s)) < listLimit"
        and "\<forall>v \<in> set (visits (push e' s)). snd v < listLimit"
        by (simp_all add: push_def)
      from Cons.IH[OF this] Emit False show ?thesis by (simp add: scanLoop_Cons)
    qed
  next
    case Descend
    let ?s' = "scanDir fs listLimit sizeThreshold (dir @ [f]) s"
    have below: "aggregate fs (dir @ [f]) < sizeThreshold"
      using Descend by (rule classify_Descend)
    then have r: "results ?s' = results s" by (rule scan_below_threshold(1))
    have "\<forall>v \<in> set (visits ?s'). snd v < listLimit"
      using scan_below_threshold_visits(1)[OF below] Cons.prems by fastforce
    moreover from r Cons.prems have "length (results ?s') < listLimit" by simp
    ultimately show ?thesis using Cons.IH[of ?s'] Descend by (simp add: scanLoop_Cons)
  qed
qed

lemma findLargeFiles_results:
  "e \<in> set (findLargeFiles fs home directory listLimit sizeThreshold) \<Longrightarrow>
     \<exists>f. classify fs sizeThreshold (locate (expandHome home directory) @ [f]) = Emit e"
  using scanDir_results[of e fs listLimit sizeThreshold "locate (expandHome home directory)"
      "\<lparr>results = [], visits = []\<rparr>"]
  by (simp add: findLargeFiles_def findLargeFiles_scan_def Let_def)

lemma findLargeFiles_visits:
  "v \<in> set (visits (findLargeFiles_scan fs home directory listLimit sizeThreshold)) \<Longrightarrow>
     fst v = locate (expandHome home directory) \<or>
     (\<exists>f. classify fs sizeThreshold (locate (expandHome home directory) @ [f]) = Descend \<and>
          prefix (locate (expandHome home directory) @ [f]) (fst v))"
  using scanDir_visits[of v fs listLimit sizeThreshold "locate (expandHome home directory)"
      "\<lparr>results = [], visits = []\<rparr>"]
  by (simp add: findLargeFiles_scan_def Let_def)

lemma scanCacheEntries_threshold:
  "\<forall>e \<in> set cacheFiles. sizeThreshold \<le> sizeBytes e \<Longrightarrow>
   \<forall>e \<in> set (fst (scanCacheEntries fs sizeThreshold fullPath files cacheFiles)). sizeThreshold \<le> sizeBytes e"
proof (induction files arbitrary: cacheFiles)
  case Nil
  then show ?case by simp
next
  case (Cons f rest)
  show ?case
  proof (cases "stat fs (fullPath @ [f])")
    case (Inl err)
    with Cons.prems show ?thesis by simp
  next
    case (Inr st)
    let ?size = "if stat_isDirectory st then aggregate fs (fullPath @ [f]) else stat_size st"
    let ?acc = "if sizeThreshold \<le> ?size
      then cacheFiles @ [\<lparr>path = fullPath @ [f], sizeBytes = ?size, isDirectory = stat_isDirectory st\<rparr>]
      else cacheFiles"
    from Cons.prems have "\<forall>e \<in> set ?acc. sizeThreshold \<le> sizeBytes e" by auto
    from Cons.IH[OF this] Inr show ?thesis
      by (simp add: getFileSizeRecursive_aggregate Let_def split: if_splits)
  qed
qed

lemma scanCacheItems_threshold:
  "\<forall>e \<in> set cacheFiles. sizeThreshold \<le> sizeBytes e \<Longrightarrow>
   \<forall>e \<in> set (fst (scanCacheItems fs sizeThreshold baseDir pattern items cacheFiles)). sizeThreshold \<le> sizeBytes e"
proof (induction items arbitrary: cacheFiles)
  case Nil
  then show ?case by simp
next
  case (Cons item rest)
  show ?case
  proof (cases "existsSync fs (baseDir @ [item] @ pattern)")
    case False
    with Cons show ?thesis by simp
  next
    case True
    show ?thesis
    proof (cases "readdir fs (baseDir @ [item] @ pattern)")
      case (Inl err)
      with True Cons.prems show ?thesis by simp
    next
      case (Inr files)
      obtain acc r where sc: "scanCacheEntries fs sizeThreshold (baseDir @ [item] @ pattern) files cacheFiles = (acc, r)"
        by (cases "scanCacheEntries fs sizeThreshold (baseDir @ [item] @ pattern) files cacheFiles")
      with scanCacheEntries_threshold[OF Cons.prems, of fs "baseDir @ [item] @ pattern" files]
      have acc: "\<forall>e \<in> set acc. sizeThreshold \<le> sizeBytes e" by simp
      show ?thesis
      proof (cases r)
        case None
        with True Inr sc Cons.IH[OF acc] show ?thesis by simp
      next
        case (Some err)
        with True Inr sc acc show ?thesis by simp
      qed
    qed
  qed
qed

lemma scanCacheDir_threshold:
  assumes "\<forall>e \<in> set cacheFiles. sizeThreshold \<le> sizeBytes e"
  shows "\<forall>e \<in> set (scanCacheDir fs home sizeThreshold dir cacheFiles). sizeThreshold \<le> sizeBytes e"
proof -
  note items = scanCacheItems_threshold[OF assms]
  note entries = scanCacheEntries_threshold[OF assms]
  show ?thesis
    unfolding scanCacheDir_def Let_def
    using assms items entries by (simp split: sum.splits)
qed

lemma scanCacheDirs_threshold:
  "\<forall>e \<in> set cacheFiles. sizeThreshold \<le> sizeBytes e \<Longrightarrow>
   \<forall>e \<in> set (scanCacheDirs fs home sizeThreshold dirs cacheFiles). sizeThreshold \<le> sizeBytes e"
proof (induction dirs arbitrary: cacheFiles)
  case Nil
  then show ?case by simp
next
  case (Cons dir rest)
  from Cons.prems
  have "\<forall>e \<in> set (scanCacheDir fs home sizeThreshold dir cacheFiles). sizeThreshold \<le> sizeBytes e"
    by (rule scanCacheDir_threshold)
  then show ?case using Cons.IH by simp
qed

lemma scanLoop_results_prefix:
  "prefix (results s) (results (fst (scanLoop fs listLimit sizeThreshold dir files s)))"
proof (induction files arbitrary: s)
  case Nil
  show ?case by simp
next
  case (Cons f rest)
  show ?case
  proof (cases "classify fs sizeThreshold (dir @ [f])")
    case Skip
    with Cons show ?thesis by (simp add: scanLoop_Cons)
  next
    case (Emit e)
    have "prefix (results s) (results (push e s))" by (simp add: push_def)
    from this Cons[of "push e s"]
    have "prefix (results s) (results (fst (scanLoop fs listLimit sizeThreshold dir rest (push e s))))"
      by (rule prefix_order.trans)
    with Emit show ?thesis by (simp add: scanLoop_Cons push_def)
  next
    case Descend
    then have "results (scanDir fs listLimit sizeThreshold (dir @ [f]) s) = results s"
      by (intro scan_below_threshold(1) classify_Descend)
    with Cons[of "scanDir fs listLimit sizeThreshold (dir @ [f]) s"] Descend
    show ?thesis by (simp add: scanLoop_Cons)
  qed
qed

lemma scanLoop_take:
  "length (results s) < listLimit \<Longrightarrow> listLimit \<le> listLimit' \<Longrightarrow> results s = results t \<Longrightarrow>
     results (fst (scanLoop fs listLimit sizeThreshold dir files s)) =
     take listLimit (results (fst (scanLoop fs listLimit' sizeThreshold dir files t)))"
proof (induction files arbitrary: s t)
  case Nil
  then show ?case by simp
next
  case (Cons f rest)
  show ?case
  proof (cases "classify fs sizeThreshold (dir @ [f])")
    case Skip
    with Cons show ?thesis by (simp add: scanLoop_Cons)
  next
    case (Emit e)
    from Cons.prems have eq: "results (push e s) = results (push e t)" by (simp add: push_def)
    show ?thesis
    proof (cases "listLimit \<le> length (results (push e s))")
      case True
      with Cons.prems have len: "length (results (push e t)) = listLimit"
        by (simp add: push_def)
      let ?r = "results (fst (if listLimit' \<le> length (results (push e t)) then (push e t, True)
          else scanLoop fs listLimit' sizeThreshold dir rest (push e t)))"
      have "prefix (results (push e t)) ?r"
        using scanLoop_results_prefix[of "push e t" fs listLimit' sizeThreshold dir rest] by simp
      then obtain more where "?r = results (push e t) @ more" by (auto simp: prefix_def)
      with len have "take listLimit ?r = results (push e t)" by simp
      with Emit True eq show ?thesis by (simp add: scanLoop_Cons)
    next
      case False
      with Cons.prems eq have "\<not> listLimit' \<le> length (results (push e t))" by simp
      moreover from False have "length (results (push e s)) < listLimit" by simp
      from Cons.IH[OF this Cons.prems(2) eq]
      have "results (fst (scanLoop fs listLimit sizeThreshold dir rest (push e s))) =
        take listLimit (results (fst (scanLoop fs listLimit' sizeThreshold dir rest (push e t))))" .
      ultimately show ?thesis using Emit False by (simp add: scanLoop_Cons)
    qed
  next
    case Descend
    let ?s' = "scanDir fs listLimit sizeThreshold (dir @ [f]) s"
    let ?t' = "scanDir fs listLimit' sizeThreshold (dir @ [f]) t"
    from Descend have "results ?s' = results s" and "results ?t' = results t"
      by (simp_all add: scan_below_threshold(1) classify_Descend)
    with Cons.prems have "length (results ?s') < listLimit" and "results ?s' = results ?t'"
      by simp_all
    from Cons.IH[OF this(1) Cons.prems(2) this(2)] Descend show ?thesis
      by (simp add: scanLoop_Cons)
  qed
qed

lemma findLargeFiles_take:
  "1 \<le> listLimit \<Longrightarrow> listLimit \<le> listLimit' \<Longrightarrow>
     findLargeFiles fs home directory listLimit sizeThreshold =
     take listLimit (findLargeFiles fs home directory listLimit' sizeThreshold)"
proof -
  assume lim: "1 \<le> listLimit" and le: "listLimit \<le> listLimit'"
  let ?root = "locate (expandHome home directory)"
  let ?s0 = "visit ?root \<lparr>results = [], visits = []\<rparr>"
  show ?thesis
  proof (cases "readdir fs ?root")
    case (Inl err)
    then show ?thesis
      by (simp add: findLargeFiles_def findLargeFiles_scan_def Let_def scanDir.simps visit_def)
  next
    case (Inr files)
    from lim have "length (results ?s0) < listLimit" by (simp add: visit_def)
    from scanLoop_take[OF this le refl, of fs sizeThreshold ?root files] Inr show ?thesis
      by (simp add: findLargeFiles_def findLargeFiles_scan_def Let_def scanDir.simps)
  qed
qed

section \<open>Properties of the deletion\<close>























section \<open>Properties of the sort\<close>

lemma mset_insertBy: "mset (insertBy cmp x ys) = add_mset x (mset ys)"
  by (induction ys) auto

lemma mset_sortBy: "mset (sortBy cmp xs) = mset xs"
  unfolding sortBy_def by (induction xs) (simp_all add: mset_insertBy)

lemma set_insertBy: "set (insertBy cmp x ys) = insert x (set ys)"
  by (induction ys) auto

lemma sorted_insertBy:
  "sorted_wrt (\<lambda>a b. sizeBytes b \<le> sizeBytes a) ys \<Longrightarrow>
   sorted_wrt (\<lambda>a b. sizeBytes b \<le> sizeBytes a) (insertBy bySizeDescending x ys)"
  by (induction ys) (auto simp: set_insertBy bySizeDescending_def)

lemma sorted_sortBy:
  "sorted_wrt (\<lambda>a b. sizeBytes b \<le> sizeBytes a) (sortBy bySizeDescending xs)"
  unfolding sortBy_def by (induction xs) (simp_all add: sorted_insertBy)

section \<open>The examples, evaluated\<close>

lemmas number_eval = toNumber_exact exact_limit_def

lemmas scan_eval =
  findLargeFiles_def findLargeFiles_scan_def locate_def expandHome_def Let_def
  scanDir.simps scanLoop.simps(2) push_def visit_def
  getFileSizeRecursive_reachableSum reachableSum_def stat_def readdir_def GB_def number_eval

lemma documents_scan:
  "findLargeFiles_scan documentsTree ''/home'' ''~/Documents'' 1000 GB =
     \<lparr>results =
        [\<lparr>path = [''home'', ''Documents'', ''bigfile''], sizeBytes = 2147483648, isDirectory = False\<rparr>,
         \<lparr>path = [''home'', ''Documents'', ''cache''], sizeBytes = 1610612736, isDirectory = True\<rparr>],
      visits = [([''home'', ''Documents''], 0), ([''home'', ''Documents'', ''sub''], 2)]\<rparr>"
  by (simp add: scan_eval documentsTree_def)

lemma documents_scan_limit_1:
  "findLargeFiles_scan documentsTree ''/home'' ''~/Documents'' (Suc 0) GB =
     \<lparr>results =
        [\<lparr>path = [''home'', ''Documents'', ''bigfile''], sizeBytes = 2147483648, isDirectory = False\<rparr>],
      visits = [([''home'', ''Documents''], 0)]\<rparr>"
  by (simp add: scan_eval documentsTree_def)

lemma documents_scan_limit_0:
  "findLargeFiles documentsTree ''/home'' ''~/Documents'' 0 GB =
     [\<lparr>path = [''home'', ''Documents'', ''bigfile''], sizeBytes = 2147483648, isDirectory = False\<rparr>]"
  by (simp add: scan_eval documentsTree_def)

lemma logs_scan:
  "findLargeFiles cacheTree ''/Users/me'' ''~/Library/Logs'' 1000 (GB div 2) =
     [\<lparr>path = [''Users'', ''me'', ''Library'', ''Logs'', ''huge.log''], sizeBytes = 1073741824,
       isDirectory = False\<rparr>]"
  by (simp add: scan_eval cacheTree_def)

lemma caches_scan:
  "findLargeFiles cacheTree ''/Users/me'' ''~/Library/Caches'' 1000 (GB div 2) =
     [\<lparr>path = [''Users'', ''me'', ''Library'', ''Caches'', ''huge.cache''], sizeBytes = 1073741824,
       isDirectory = False\<rparr>]"
  by (simp add: scan_eval cacheTree_def)

lemma cache_scan:
  "scanCacheFiles cacheTree ''/Users/me'' (GB div 2) =
     [\<lparr>path = [''Users'', ''me'', ''Library'', ''Logs'', ''huge.log''], sizeBytes = 1073741824,
       isDirectory = False\<rparr>,
      \<lparr>path = [''Users'', ''me'', ''Library'', ''Application Support'', ''Editor'', ''Caches'', ''blob''],
        sizeBytes = 536870919, isDirectory = True\<rparr>,
      \<lparr>path = [''Library'', ''Caches'', ''sys''], sizeBytes = 1073741824, isDirectory = False\<rparr>]"
  by (simp add: scanCacheFiles_def cacheDirs_def scanCacheDir_def locate_def expandHome_def Let_def
      existsSync_def stat_def readdir_def getFileSizeRecursive_reachableSum reachableSum_def
      cacheTree_def GB_def number_eval)

lemma archive_size:
  "getFileSizeRecursive archiveTree [''archive''] = Inr 9007199254740992"
proof -
  have a: "aggregate archiveTree [''archive'', ''a.bin''] = 9007199254740992"
    by (simp add: aggregate_File[of _ _ 9007199254740992] archiveTree_def number_eval)
  have b: "aggregate archiveTree [''archive'', ''b.bin''] = 1"
    by (simp add: aggregate_File[of _ _ 1] archiveTree_def number_eval)
  have "lookup archiveTree [''archive''] =
      Some (Dir [(''a.bin'', File 9007199254740992), (''b.bin'', File 1)])"
    by (simp add: archiveTree_def)
  from aggregate_Dir[OF this] a b
  have "aggregate archiveTree [''archive''] = plusNumber (plusNumber 0 9007199254740992) 1"
    by simp
  also have "\<dots> = 9007199254740992"
    by (simp add: plusNumber_def toNumber_def roundTo_def expo.simps exact_limit_def)
  finally show ?thesis by (simp add: getFileSizeRecursive_aggregate)
qed

lemmas delete_eval =
  deleteFiles_def deleteOne_def stat_def unlink_def rm_def lockedCache_def documentsTree_def



lemma delete_bigfile_loop:
  "deleteLoop documentsTree lockedCache [[''home'', ''Documents'', ''bigfile'']] 0 0 =
     (Dir [(''home'', Dir [(''Documents'', Dir
       [(''cache'', Dir
          [(''dangling'', NoStat), (''part1'', File GB), (''part2'', File (GB div 2)),
           (''private'', NoRead)]),
        (''sub'', Dir [(''small1'', File 10485760), (''small2'', File 20971520)])])])], 1, 0)"
  by (simp add: delete_eval)

lemma delete_bigfile:
  "deleteFiles documentsTree lockedCache True [[''home'', ''Documents'', ''bigfile'']] =
     (Dir [(''home'', Dir [(''Documents'', Dir
       [(''cache'', Dir
          [(''dangling'', NoStat), (''part1'', File GB), (''part2'', File (GB div 2)),
           (''private'', NoRead)]),
        (''sub'', Dir [(''small1'', File 10485760), (''small2'', File 20971520)])])])], Deleted 1 0)"
  by (simp add: delete_eval)

section \<open>Claims about the Size Aggregator\<close>

text \<open>
  Claim C1, amended. On every filesystem tree and at every location,
  \<^verbatim>\<open>getFileSizeRecursive\<close> returns: it never rejects. When every directory lists
  each name once and the sizes of the readable leaf files reachable from the location add
  up to at most \<open>2 ^ 53\<close>, the number it returns is that sum, where a location that
  does not resolve, an entry whose \<^verbatim>\<open>stat\<close> fails and a directory whose
  enumeration fails count 0 and leave the sums of their siblings as they are. The result
  is a natural number, so it is never negative. The claim as stated, for every tree, fails
  beyond \<open>2 ^ 53\<close>: the sizes are added as JavaScript numbers (line 42), and a sum
  that is not a double is rounded.
\<close>

theorem getFileSizeRecursive_sum_of_readable_files:
  "(\<exists>n. getFileSizeRecursive fs p = Inr n) \<and>
   (distinctNames fs \<and> reachableSum fs p \<le> exact_limit \<longrightarrow>
      getFileSizeRecursive fs p = Inr (reachableSum fs p))"
proof (intro conjI impI)
  show "\<exists>n. getFileSizeRecursive fs p = Inr n" by (rule getFileSizeRecursive_returns)
next
  assume "distinctNames fs \<and> reachableSum fs p \<le> exact_limit"
  then show "getFileSizeRecursive fs p = Inr (reachableSum fs p)"
    by (simp add: getFileSizeRecursive_reachableSum)
qed

text \<open>
  The folder \<^verbatim>\<open>cache\<close> of the documents example holds 1 GiB and 0.5 GiB next to
  two entries that fail: its size is 1.5 GiB.
\<close>

theorem getFileSizeRecursive_sum_of_readable_files_witness:
  "distinctNames documentsTree \<and>
   reachableSum documentsTree [''home'', ''Documents'', ''cache''] \<le> exact_limit \<and>
   getFileSizeRecursive documentsTree [''home'', ''Documents'', ''cache''] = Inr 1610612736"
proof -
  have d: "distinctNames documentsTree"
    by (simp add: documentsTree_def)
  have r: "reachableSum documentsTree [''home'', ''Documents'', ''cache''] = 1610612736"
    by (simp add: reachableSum_def documentsTree_def GB_def)
  then have b: "reachableSum documentsTree [''home'', ''Documents'', ''cache''] \<le> exact_limit"
    by (simp add: exact_limit_def)
  from d b r getFileSizeRecursive_sum_of_readable_files[of documentsTree "[''home'', ''Documents'', ''cache'']"]
  show ?thesis by simp
qed

text \<open>
  Claim C1 as stated is false. The folder \<^verbatim>\<open>archive\<close> holds a file of
  \<open>2 ^ 53\<close> bytes and a file of 1 byte, both readable: the sum of their sizes is
  9007199254740993, and \<^verbatim>\<open>getFileSizeRecursive\<close> returns 9007199254740992.
\<close>

theorem getFileSizeRecursive_rounds_counterexample:
  "distinctNames archiveTree \<and>
   readableFiles (Dir [(''a.bin'', File 9007199254740992), (''b.bin'', File 1)]) =
     [9007199254740992, 1] \<and>
   reachableSum archiveTree [''archive''] = 9007199254740993 \<and>
   getFileSizeRecursive archiveTree [''archive''] = Inr 9007199254740992 \<and>
   getFileSizeRecursive archiveTree [''archive''] \<noteq> Inr (reachableSum archiveTree [''archive''])"
proof -
  have "distinctNames archiveTree"
    and "readableFiles (Dir [(''a.bin'', File 9007199254740992), (''b.bin'', File 1)]) =
     [9007199254740992, 1]"
    and "reachableSum archiveTree [''archive''] = 9007199254740993"
    by (simp_all add: reachableSum_def archiveTree_def)
  then show ?thesis by (simp add: archive_size)
qed

section \<open>Claims about the scanners\<close>

text \<open>
  Claim C2. Whatever the filesystem, the root directory, the cap and the threshold, every
  entry that \<^verbatim>\<open>findLargeFiles\<close> returns and every entry that
  \<^verbatim>\<open>scanCacheFiles\<close> returns has a size of at least the threshold.
\<close>

theorem emitted_sizes_reach_threshold:
  "(\<forall>e \<in> set (findLargeFiles fs home directory listLimit sizeThreshold). sizeThreshold \<le> sizeBytes e) \<and>
   (\<forall>e \<in> set (scanCacheFiles fs home sizeThreshold). sizeThreshold \<le> sizeBytes e)"
proof
  show "\<forall>e \<in> set (findLargeFiles fs home directory listLimit sizeThreshold). sizeThreshold \<le> sizeBytes e"
    by (auto dest!: findLargeFiles_results classify_Emit)
next
  show "\<forall>e \<in> set (scanCacheFiles fs home sizeThreshold). sizeThreshold \<le> sizeBytes e"
    unfolding scanCacheFiles_def by (rule scanCacheDirs_threshold) simp
qed

text \<open>
  In the cache example, with the threshold of 0.5 GiB, the scan of the log folder returns
  an entry and the cache scan returns three; the theorem bounds their sizes.
\<close>

theorem emitted_sizes_reach_threshold_witness:
  "findLargeFiles cacheTree ''/Users/me'' ''~/Library/Logs'' 1000 (GB div 2) \<noteq> [] \<and>
   GB div 2 \<le> sizeBytes (hd (findLargeFiles cacheTree ''/Users/me'' ''~/Library/Logs'' 1000 (GB div 2))) \<and>
   length (scanCacheFiles cacheTree ''/Users/me'' (GB div 2)) = 3 \<and>
   GB div 2 \<le> sizeBytes (scanCacheFiles cacheTree ''/Users/me'' (GB div 2) ! 1)"
proof -
  let ?found = "findLargeFiles cacheTree ''/Users/me'' ''~/Library/Logs'' 1000 (GB div 2)"
  let ?cached = "scanCacheFiles cacheTree ''/Users/me'' (GB div 2)"
  have n: "?found \<noteq> []" and l: "length ?cached = 3"
    by (simp_all add: logs_scan cache_scan)
  then have "hd ?found \<in> set ?found" and "?cached ! 1 \<in> set ?cached" by simp_all
  with emitted_sizes_reach_threshold[of cacheTree "''/Users/me''" "''~/Library/Logs''" 1000 "GB div 2"]
  have "GB div 2 \<le> sizeBytes (hd ?found)" and "GB div 2 \<le> sizeBytes (?cached ! 1)" by blast+
  with n l show ?thesis by blast
qed

text \<open>
  Claim C3, amended. For every scan with \<open>listLimit\<close> of at least 1, the result has at
  most \<open>listLimit\<close> entries, and the traversal stops at the moment the count reaches
  \<open>listLimit\<close>: every call of \<^verbatim>\<open>scanDir\<close> is made while the result still
  has fewer than \<open>listLimit\<close> entries, and the result is the first \<open>listLimit\<close>
  entries of what the scan returns under any larger cap. The claim as stated, for any \<open>listLimit\<close>,
  fails for \<open>listLimit = 0\<close>: the count is compared with the cap only after a push
  (lines 74 and 88), so the first candidate is returned.
\<close>

theorem findLargeFiles_capped:
  "1 \<le> listLimit \<Longrightarrow>
     length (findLargeFiles fs home directory listLimit sizeThreshold) \<le> listLimit \<and>
     (\<forall>v \<in> set (visits (findLargeFiles_scan fs home directory listLimit sizeThreshold)).
        snd v < listLimit) \<and>
     (\<forall>listLimit'. listLimit \<le> listLimit' \<longrightarrow>
        findLargeFiles fs home directory listLimit sizeThreshold =
        take listLimit (findLargeFiles fs home directory listLimit' sizeThreshold))"
proof -
  assume lim: "1 \<le> listLimit"
  let ?root = "locate (expandHome home directory)"
  let ?s0 = "\<lparr>results = [], visits = []\<rparr>"
  have "length (findLargeFiles fs home directory listLimit sizeThreshold) \<le> listLimit \<and>
     (\<forall>v \<in> set (visits (findLargeFiles_scan fs home directory listLimit sizeThreshold)).
        snd v < listLimit)"
  proof (cases "readdir fs ?root")
    case (Inl err)
    with lim show ?thesis
      by (simp add: findLargeFiles_def findLargeFiles_scan_def Let_def scanDir.simps visit_def)
  next
    case (Inr files)
    from lim have "length (results (visit ?root ?s0)) < listLimit"
      and "\<forall>v \<in> set (visits (visit ?root ?s0)). snd v < listLimit"
      by (simp_all add: visit_def)
    from scanLoop_cap[OF this, of fs sizeThreshold ?root files] Inr show ?thesis
      by (simp add: findLargeFiles_def findLargeFiles_scan_def Let_def scanDir.simps)
  qed
  moreover have "\<forall>listLimit'. listLimit \<le> listLimit' \<longrightarrow>
        findLargeFiles fs home directory listLimit sizeThreshold =
        take listLimit (findLargeFiles fs home directory listLimit' sizeThreshold)"
    using lim by (simp add: findLargeFiles_take)
  ultimately show ?thesis by blast
qed

text \<open>
  With the cap 1 the scan of the documents example returns the first of its two
  candidates and never enters the folder \<^verbatim>\<open>sub\<close>, which the uncapped scan
  visits.
\<close>

theorem findLargeFiles_capped_witness:
  "(1::nat) \<le> 1 \<and>
   length (findLargeFiles documentsTree ''/home'' ''~/Documents'' 1 GB) = 1 \<and>
   length (findLargeFiles documentsTree ''/home'' ''~/Documents'' 1 GB) \<le> 1 \<and>
   visits (findLargeFiles_scan documentsTree ''/home'' ''~/Documents'' 1 GB) = [([''home'', ''Documents''], 0)] \<and>
   length (findLargeFiles documentsTree ''/home'' ''~/Documents'' 1000 GB) = 2 \<and>
   findLargeFiles documentsTree ''/home'' ''~/Documents'' 1 GB =
     take 1 (findLargeFiles documentsTree ''/home'' ''~/Documents'' 1000 GB)"
proof -
  have "(1::nat) \<le> 1" by simp
  from findLargeFiles_capped[OF this, of documentsTree "''/home''" "''~/Documents''" GB]
  have "length (findLargeFiles documentsTree ''/home'' ''~/Documents'' 1 GB) \<le> 1"
    and "findLargeFiles documentsTree ''/home'' ''~/Documents'' 1 GB =
     take 1 (findLargeFiles documentsTree ''/home'' ''~/Documents'' 1000 GB)"
    by simp_all
  then show ?thesis
    by (simp add: findLargeFiles_def documents_scan documents_scan_limit_1)
qed

text \<open>
  Claim C3 as stated is false for \<open>listLimit = 0\<close>: the scan of the documents example
  returns one entry.
\<close>

theorem findLargeFiles_limit_zero_counterexample:
  "\<not> length (findLargeFiles documentsTree ''/home'' ''~/Documents'' 0 GB) \<le> 0"
  by (simp add: documents_scan_limit_0)

text \<open>
  Claim C4. In every result of \<^verbatim>\<open>findLargeFiles\<close>, a directory that is emitted is
  not descended into: no entry of the result lies strictly below it, and
  \<^verbatim>\<open>scanDir\<close> is called neither on it nor on anything below it.
\<close>

theorem emitted_directory_not_descended:
  "\<forall>e \<in> set (findLargeFiles fs home directory listLimit sizeThreshold). isDirectory e \<longrightarrow>
     (\<forall>e' \<in> set (findLargeFiles fs home directory listLimit sizeThreshold).
        \<not> strict_prefix (path e) (path e')) \<and>
     (\<forall>v \<in> set (visits (findLargeFiles_scan fs home directory listLimit sizeThreshold)).
        \<not> prefix (path e) (fst v))"
proof (intro ballI impI conjI)
  fix e e'
  assume "e \<in> set (findLargeFiles fs home directory listLimit sizeThreshold)"
    and "e' \<in> set (findLargeFiles fs home directory listLimit sizeThreshold)"
  then obtain f f' where "path e = locate (expandHome home directory) @ [f]"
    and "path e' = locate (expandHome home directory) @ [f']"
    by (auto dest!: findLargeFiles_results classify_Emit)
  then show "\<not> strict_prefix (path e) (path e')" by (auto simp: strict_prefix_def)
next
  fix e v
  assume e: "e \<in> set (findLargeFiles fs home directory listLimit sizeThreshold)"
    and v: "v \<in> set (visits (findLargeFiles_scan fs home directory listLimit sizeThreshold))"
  let ?root = "locate (expandHome home directory)"
  from e obtain f where c: "classify fs sizeThreshold (?root @ [f]) = Emit e"
    by (auto dest!: findLargeFiles_results)
  then have p: "path e = ?root @ [f]" by (auto dest: classify_Emit)
  show "\<not> prefix (path e) (fst v)"
  proof
    assume pre: "prefix (path e) (fst v)"
    from findLargeFiles_visits[OF v] show False
    proof
      assume "fst v = ?root"
      with pre p show False by (auto simp: prefix_def)
    next
      assume "\<exists>g. classify fs sizeThreshold (?root @ [g]) = Descend \<and> prefix (?root @ [g]) (fst v)"
      then obtain g where g: "classify fs sizeThreshold (?root @ [g]) = Descend"
        and pg: "prefix (?root @ [g]) (fst v)" by blast
      from pre p pg have "f = g" by (auto simp: prefix_def append_eq_append_conv2 Cons_eq_append_conv)
      with c g show False by simp
    qed
  qed
qed

text \<open>
  In the documents example the folder \<^verbatim>\<open>cache\<close> is emitted as a directory; the
  other entry and the visit of \<^verbatim>\<open>sub\<close> are not below it.
\<close>

theorem emitted_directory_not_descended_witness:
  "findLargeFiles documentsTree ''/home'' ''~/Documents'' 1000 GB ! 1 =
     \<lparr>path = [''home'', ''Documents'', ''cache''], sizeBytes = 1610612736, isDirectory = True\<rparr> \<and>
   \<not> strict_prefix [''home'', ''Documents'', ''cache'']
       (path (findLargeFiles documentsTree ''/home'' ''~/Documents'' 1000 GB ! 0)) \<and>
   visits (findLargeFiles_scan documentsTree ''/home'' ''~/Documents'' 1000 GB) ! 1 =
     ([''home'', ''Documents'', ''sub''], 2) \<and>
   \<not> prefix [''home'', ''Documents'', ''cache'']
       (fst (visits (findLargeFiles_scan documentsTree ''/home'' ''~/Documents'' 1000 GB) ! 1))"
proof -
  let ?found = "findLargeFiles documentsTree ''/home'' ''~/Documents'' 1000 GB"
  let ?visits = "visits (findLargeFiles_scan documentsTree ''/home'' ''~/Documents'' 1000 GB)"
  have c: "?found ! 1 =
      \<lparr>path = [''home'', ''Documents'', ''cache''], sizeBytes = 1610612736, isDirectory = True\<rparr>"
    and v: "?visits ! 1 = ([''home'', ''Documents'', ''sub''], 2)"
    and l: "length ?found = 2" "length ?visits = 2"
    by (simp_all add: findLargeFiles_def documents_scan)
  from l have m: "?found ! 1 \<in> set ?found" "?found ! 0 \<in> set ?found" "?visits ! 1 \<in> set ?visits"
    by simp_all
  from c have d: "isDirectory (?found ! 1)" and p: "path (?found ! 1) = [''home'', ''Documents'', ''cache'']"
    by simp_all
  from emitted_directory_not_descended[of documentsTree "''/home''" "''~/Documents''" 1000 GB] m d
  have "\<not> strict_prefix (path (?found ! 1)) (path (?found ! 0))"
    and "\<not> prefix (path (?found ! 1)) (fst (?visits ! 1))"
    by blast+
  with p c v show ?thesis by simp
qed

text \<open>
  Claim C5, amended. When the loop of \<^verbatim>\<open>scanDir\<close> meets a directory whose
  aggregate size is below the threshold, it calls \<^verbatim>\<open>scanDir\<close> on it and goes on
  with the next entry. The recursion is vacuous on a filesystem that does not change
  during the scan: every location at or below the directory has an aggregate size below
  the threshold, since a sum of sizes is at least each of its summands, and the call
  leaves the result as it was.
\<close>

theorem directory_below_threshold_scanned_in_vain:
  "stat fs (dir @ [f]) = Inr st \<Longrightarrow> stat_isDirectory st \<Longrightarrow>
   aggregate fs (dir @ [f]) < sizeThreshold \<Longrightarrow>
     scanLoop fs listLimit sizeThreshold dir (f # rest) s =
       scanLoop fs listLimit sizeThreshold dir rest (scanDir fs listLimit sizeThreshold (dir @ [f]) s) \<and>
     (dir @ [f], length (results s)) \<in> set (visits (scanDir fs listLimit sizeThreshold (dir @ [f]) s)) \<and>
     results (scanDir fs listLimit sizeThreshold (dir @ [f]) s) = results s \<and>
     (\<forall>p. prefix (dir @ [f]) p \<longrightarrow> aggregate fs p < sizeThreshold)"
proof (intro conjI allI impI)
  assume st: "stat fs (dir @ [f]) = Inr st" "stat_isDirectory st"
    and below: "aggregate fs (dir @ [f]) < sizeThreshold"
  then have "classify fs sizeThreshold (dir @ [f]) = Descend" by (simp add: classify_def)
  then show "scanLoop fs listLimit sizeThreshold dir (f # rest) s =
       scanLoop fs listLimit sizeThreshold dir rest (scanDir fs listLimit sizeThreshold (dir @ [f]) s)"
    by (simp add: scanLoop_Cons)
  show "(dir @ [f], length (results s)) \<in> set (visits (scanDir fs listLimit sizeThreshold (dir @ [f]) s))"
    by (rule scanDir_visits_dir)
  from below show "results (scanDir fs listLimit sizeThreshold (dir @ [f]) s) = results s"
    by (rule scan_below_threshold(1))
  fix p assume "prefix (dir @ [f]) p"
  then obtain q where "p = (dir @ [f]) @ q" by (auto simp: prefix_def)
  with aggregate_descendant_le[of fs "dir @ [f]" q] below show "aggregate fs p < sizeThreshold"
    by simp
qed

text \<open>
  The folder \<^verbatim>\<open>sub\<close> of the documents example holds 30 MiB: it is entered, and
  nothing is emitted from it.
\<close>

theorem directory_below_threshold_scanned_in_vain_witness:
  "stat documentsTree ([''home'', ''Documents''] @ [''sub'']) =
     Inr \<lparr>stat_isDirectory = True, stat_size = 0\<rparr> \<and>
   aggregate documentsTree ([''home'', ''Documents''] @ [''sub'']) = 31457280 \<and>
   results (scanDir documentsTree 1000 GB ([''home'', ''Documents''] @ [''sub''])
     \<lparr>results = [], visits = []\<rparr>) = [] \<and>
   aggregate documentsTree [''home'', ''Documents'', ''sub'', ''small2''] < GB"
proof -
  let ?sub = "[''home'', ''Documents''] @ [''sub'']"
  have s: "stat documentsTree ?sub = Inr \<lparr>stat_isDirectory = True, stat_size = 0\<rparr>"
    by (simp add: stat_def documentsTree_def)
  have "getFileSizeRecursive documentsTree ?sub = Inr 31457280"
    by (simp add: getFileSizeRecursive_reachableSum reachableSum_def documentsTree_def GB_def
        number_eval)
  then have a: "aggregate documentsTree ?sub = 31457280" by (simp add: aggregate_def)
  then have b: "aggregate documentsTree ?sub < GB" by (simp add: GB_def)
  have p: "prefix ?sub [''home'', ''Documents'', ''sub'', ''small2'']" by simp
  from directory_below_threshold_scanned_in_vain[OF s _ b, of 1000 "[]" "\<lparr>results = [], visits = []\<rparr>"] p
  have "results (scanDir documentsTree 1000 GB ?sub \<lparr>results = [], visits = []\<rparr>) = []"
    and "aggregate documentsTree [''home'', ''Documents'', ''sub'', ''small2''] < GB"
    by auto
  with s a show ?thesis by blast
qed

text \<open>
  Claim C5 as stated is false: there is no filesystem tree in which a directory below
  the threshold has a descendant at or above it, or in which \<^verbatim>\<open>scanDir\<close> called
  on such a directory emits an entry.
\<close>

theorem no_oversized_descendant_below_threshold_counterexample:
  "\<not> (\<exists>fs listLimit sizeThreshold dir p s.
        aggregate fs dir < sizeThreshold \<and> prefix dir p \<and>
        (sizeThreshold \<le> aggregate fs p \<or>
         results (scanDir fs listLimit sizeThreshold dir s) \<noteq> results s))"
proof
  assume "\<exists>fs listLimit sizeThreshold dir p s.
        aggregate fs dir < sizeThreshold \<and> prefix dir p \<and>
        (sizeThreshold \<le> aggregate fs p \<or>
         results (scanDir fs listLimit sizeThreshold dir s) \<noteq> results s)"
  then obtain fs listLimit sizeThreshold dir p s
    where below: "aggregate fs dir < sizeThreshold" and pre: "prefix dir p"
      and d: "sizeThreshold \<le> aggregate fs p \<or>
         results (scanDir fs listLimit sizeThreshold dir s) \<noteq> results s"
    by blast
  from pre obtain q where "p = dir @ q" by (auto simp: prefix_def)
  with aggregate_descendant_le[of fs dir q] below have "aggregate fs p < sizeThreshold" by simp
  moreover from below have "results (scanDir fs listLimit sizeThreshold dir s) = results s"
    by (rule scan_below_threshold(1))
  ultimately show False using d by simp
qed

text \<open>
  Claim C6 fails on the code. In \<^verbatim>\<open>scanCacheFiles\<close> the \<^verbatim>\<open>stat\<close> of an entry
  (lines 138 and 157) has no \<^verbatim>\<open>try\<close> of its own, so its failure leaves the loop
  over the entries of that cache directory through the \<^verbatim>\<open>catch\<close> of line 168. In
  the cache example \<^verbatim>\<open>~/Library/Caches\<close> holds \<^verbatim>\<open>broken.link\<close>, which
  cannot be statted, and \<^verbatim>\<open>huge.cache\<close>, a file of 1 GiB;
  \<^verbatim>\<open>readdir\<close> lists them in this order. The cache scan with the threshold
  0.5 GiB does not return that file, while it goes on with the other cache directories,
  and \<^verbatim>\<open>findLargeFiles\<close> on the same directory, whose loop has the inner
  \<^verbatim>\<open>try\<close>, returns it.
\<close>

theorem scanCacheFiles_stops_at_failing_entry:
  "readdir cacheTree [''Users'', ''me'', ''Library'', ''Caches''] = Inr [''broken.link'', ''huge.cache''] \<and>
   stat cacheTree [''Users'', ''me'', ''Library'', ''Caches'', ''broken.link''] = Inl EACCES \<and>
   stat cacheTree [''Users'', ''me'', ''Library'', ''Caches'', ''huge.cache''] =
     Inr \<lparr>stat_isDirectory = False, stat_size = 1073741824\<rparr> \<and>
   scanCacheFiles cacheTree ''/Users/me'' (GB div 2) =
     [\<lparr>path = [''Users'', ''me'', ''Library'', ''Logs'', ''huge.log''], sizeBytes = 1073741824,
       isDirectory = False\<rparr>,
      \<lparr>path = [''Users'', ''me'', ''Library'', ''Application Support'', ''Editor'', ''Caches'', ''blob''],
        sizeBytes = 536870919, isDirectory = True\<rparr>,
      \<lparr>path = [''Library'', ''Caches'', ''sys''], sizeBytes = 1073741824, isDirectory = False\<rparr>] \<and>
   findLargeFiles cacheTree ''/Users/me'' ''~/Library/Caches'' 1000 (GB div 2) =
     [\<lparr>path = [''Users'', ''me'', ''Library'', ''Caches'', ''huge.cache''], sizeBytes = 1073741824,
       isDirectory = False\<rparr>]"
proof -
  have "readdir cacheTree [''Users'', ''me'', ''Library'', ''Caches''] = Inr [''broken.link'', ''huge.cache'']"
    and "stat cacheTree [''Users'', ''me'', ''Library'', ''Caches'', ''broken.link''] = Inl EACCES"
    and "stat cacheTree [''Users'', ''me'', ''Library'', ''Caches'', ''huge.cache''] =
     Inr \<lparr>stat_isDirectory = False, stat_size = 1073741824\<rparr>"
    by (simp_all add: stat_def readdir_def cacheTree_def GB_def number_eval)
  then show ?thesis by (simp only: cache_scan caches_scan simp_thms)
qed

section \<open>Claims about selection and deletion\<close>

text \<open>
  Claim C7. When the selection is empty or the operator answers no, \<^verbatim>\<open>deleteFiles\<close>
  leaves the filesystem as it was, and reports that nothing was selected or that the
  operation was cancelled.
\<close>

theorem deleteFiles_without_consent_changes_nothing:
  "files = [] \<or> \<not> confirm \<Longrightarrow>
     fst (deleteFiles fs locked confirm files) = fs \<and>
     snd (deleteFiles fs locked confirm files) =
       (if files = [] then NoFilesSelected else OperationCancelled)"
  by (auto simp: deleteFiles_def)

text \<open>
  In the documents example: the empty selection, the answer no, and for contrast the
  answer yes, which removes the selected file.
\<close>

theorem deleteFiles_without_consent_changes_nothing_witness:
  "fst (deleteFiles documentsTree lockedCache True []) = documentsTree \<and>
   snd (deleteFiles documentsTree lockedCache True []) = NoFilesSelected \<and>
   fst (deleteFiles documentsTree lockedCache False [[''home'', ''Documents'', ''bigfile'']]) = documentsTree \<and>
   snd (deleteFiles documentsTree lockedCache False [[''home'', ''Documents'', ''bigfile'']]) = OperationCancelled \<and>
   fst (deleteFiles documentsTree lockedCache True [[''home'', ''Documents'', ''bigfile'']]) \<noteq> documentsTree"
proof -
  have "([]::path list) = [] \<or> \<not> True" by simp
  note a = deleteFiles_without_consent_changes_nothing[OF this, of documentsTree lockedCache]
  have "[[''home'', ''Documents'', ''bigfile'']] = [] \<or> \<not> False" by simp
  note b = deleteFiles_without_consent_changes_nothing[OF this, of documentsTree lockedCache]
  have c: "fst (deleteFiles documentsTree lockedCache True [[''home'', ''Documents'', ''bigfile'']]) \<noteq> documentsTree"
    by (simp add: delete_bigfile) (simp add: documentsTree_def)
  from a b c show ?thesis by simp
qed



text \<open>
  Claim C9. What \<^verbatim>\<open>selectFilesToDelete\<close> presents is sorted by size, largest
  first: in the sorted array each entry is at least as large as the next one. The array
  holds the entries of the scan result, and the choices of the prompt, which the operator
  picks from, are its paths in that order.
\<close>

theorem presented_files_sorted_descending:
  "(\<forall>i. Suc i < length (sorted_files (present files)) \<longrightarrow>
        sizeBytes (sorted_files (present files) ! Suc i) \<le> sizeBytes (sorted_files (present files) ! i)) \<and>
   mset (sorted_files (present files)) = mset files \<and>
   choices (present files) = map path (sorted_files (present files)) \<and>
   selectFilesToDelete pick files = pick (map path (sorted_files (present files)))"
proof (intro conjI allI impI)
  fix i assume "Suc i < length (sorted_files (present files))"
  with sorted_sortBy[of files]
  show "sizeBytes (sorted_files (present files) ! Suc i) \<le> sizeBytes (sorted_files (present files) ! i)"
    by (simp add: present_def Let_def sorted_wrt_iff_nth_less)
qed (simp_all add: present_def selectFilesToDelete_def Let_def mset_sortBy)

text \<open>Three entries of sizes 5, 20 and 10 are presented in the order 20, 10, 5.\<close>

theorem presented_files_sorted_descending_witness:
  "map sizeBytes (sorted_files (present unsortedFiles)) = [20, 10, 5] \<and>
   Suc 0 < length (sorted_files (present unsortedFiles)) \<and>
   sizeBytes (sorted_files (present unsortedFiles) ! Suc 0) \<le> sizeBytes (sorted_files (present unsortedFiles) ! 0) \<and>
   choices (present unsortedFiles) = [[''home'', ''b''], [''home'', ''c''], [''home'', ''a'']]"
proof -
  have m: "map sizeBytes (sorted_files (present unsortedFiles)) = [20, 10, 5]"
    and c: "choices (present unsortedFiles) = [[''home'', ''b''], [''home'', ''c''], [''home'', ''a'']]"
    by (simp_all add: present_def Let_def sortBy_def bySizeDescending_def unsortedFiles_def)
  from m have "length (map sizeBytes (sorted_files (present unsortedFiles))) = 3" by simp
  then have l: "Suc 0 < length (sorted_files (present unsortedFiles))" by simp
  with presented_files_sorted_descending[of unsortedFiles]
  have "sizeBytes (sorted_files (present unsortedFiles) ! Suc 0) \<le> sizeBytes (sorted_files (present unsortedFiles) ! 0)"
    by blast
  with m c l show ?thesis by blast
qed

section \<open>A further claim about the Threshold Scanner\<close>

text \<open>
  Claim C10. The root directory of a scan is never emitted, whatever its own aggregate
  size: the path of every entry that \<^verbatim>\<open>findLargeFiles\<close> returns is a strict
  extension of the location of the expanded root directory.
\<close>

theorem root_never_emitted:
  "\<forall>e \<in> set (findLargeFiles fs home directory listLimit sizeThreshold).
     strict_prefix (locate (expandHome home directory)) (path e)"
  by (auto simp: strict_prefix_def dest!: findLargeFiles_results classify_Emit)

text \<open>
  The documents folder of the example holds more than 3.5 GiB; the scan with the
  threshold 1 GiB returns two entries below it, and not the folder.
\<close>

theorem root_never_emitted_witness:
  "locate (expandHome ''/home'' ''~/Documents'') = [''home'', ''Documents''] \<and>
   GB \<le> aggregate documentsTree [''home'', ''Documents''] \<and>
   length (findLargeFiles documentsTree ''/home'' ''~/Documents'' 1000 GB) = 2 \<and>
   strict_prefix [''home'', ''Documents'']
     (path (findLargeFiles documentsTree ''/home'' ''~/Documents'' 1000 GB ! 0)) \<and>
   strict_prefix [''home'', ''Documents'']
     (path (findLargeFiles documentsTree ''/home'' ''~/Documents'' 1000 GB ! 1))"
proof -
  let ?found = "findLargeFiles documentsTree ''/home'' ''~/Documents'' 1000 GB"
  have r: "locate (expandHome ''/home'' ''~/Documents'') = [''home'', ''Documents'']"
    by (simp add: locate_def expandHome_def)
  have "getFileSizeRecursive documentsTree [''home'', ''Documents''] = Inr 3789553664"
    by (simp add: getFileSizeRecursive_reachableSum reachableSum_def documentsTree_def GB_def
        number_eval)
  then have a: "GB \<le> aggregate documentsTree [''home'', ''Documents'']"
    by (simp add: aggregate_def GB_def)
  have l: "length ?found = 2" by (simp add: findLargeFiles_def documents_scan)
  then have "?found ! 0 \<in> set ?found" "?found ! 1 \<in> set ?found" by simp_all
  with root_never_emitted[of documentsTree "''/home''" "''~/Documents''" 1000 GB] r
  have "strict_prefix [''home'', ''Documents''] (path (?found ! 0))"
    and "strict_prefix [''home'', ''Documents''] (path (?found ! 1))"
    by auto
  with r a l show ?thesis by blast
qed

end
